theory Spec2Isabelle
  imports Complex_Main "HOL-Library.Log_Nat"
begin

section \<open>Python floats: IEEE 754 binary64, round to nearest, ties to even\<close>

text \<open>
  The program (\<^verbatim>\<open>hole_report.py\<close>) computes with Python \<^verbatim>\<open>float\<close>s, which are
  IEEE 754 binary64 numbers. A float is modelled by its value: a finite float is the
  rational number it denotes, and there are the two infinities and NaN. The two zeros
  \<^verbatim>\<open>0.0\<close> and \<^verbatim>\<open>-0.0\<close> are one value \<open>Fin 0\<close>: Python's \<^verbatim>\<open>==\<close> and \<^verbatim>\<open><=\<close> do not
  tell them apart, and the program never divides by a zero (Python raises
  \<^verbatim>\<open>ZeroDivisionError\<close> there), so the sign of a zero never reaches a result other
  than as the sign of a zero. HOL equality on \<open>double\<close> is therefore Python's \<^verbatim>\<open>==\<close>
  on values other than NaN, and identity of the kind of value on NaN.

  Every arithmetic operation computes the exact rational result and rounds it with
  \<open>rnd\<close>: to the nearest binary64 value, ties to the even significand, overflow to
  an infinity, gradual underflow through the subnormal numbers down to zero.
\<close>

datatype double = Fin rat | PInf | NInf | NaN

text \<open>\<open>ilog2 a\<close> is \<open>\<lfloor>log\<^sub>2 a\<rfloor>\<close> for a positive rational \<open>a\<close>, computed from bit lengths.\<close>

definition ilog2 :: "rat \<Rightarrow> int" where
  "ilog2 a = (case quotient_of a of (p, q) \<Rightarrow>
     (let d = bitlen p - bitlen q in if 2 powi d \<le> a then d else d - 1))"

text \<open>Rounding a rational to the nearest integer, a tie to the even one.\<close>

definition rne :: "rat \<Rightarrow> int" where
  "rne x = (let f = \<lfloor>x\<rfloor>; r = x - of_int f in
     if r < 1 / 2 then f else if 1 / 2 < r then f + 1 else if even f then f else f + 1)"

text \<open>
  The exponent of the unit in the last place at magnitude \<open>a\<close>: 53 significant bits
  for a normal number, and the fixed spacing \<open>2\<^sup>-\<^sup>1\<^sup>0\<^sup>7\<^sup>4\<close> below \<open>2\<^sup>-\<^sup>1\<^sup>0\<^sup>2\<^sup>2\<close>.
\<close>

definition ulp_exp :: "rat \<Rightarrow> int" where
  "ulp_exp a = max (ilog2 a) (- 1022) - 52"

text \<open>
  The magnitude \<open>a > 0\<close> rounded to the grid of multiples of its unit in the last
  place, and \<open>rnd\<close>: the rounded magnitude with the sign put back, or the infinity of
  that sign when the rounded magnitude has left the range of binary64.
\<close>

definition round_mag :: "rat \<Rightarrow> rat" where
  "round_mag a = of_int (rne (a / 2 powi (ulp_exp a))) * 2 powi (ulp_exp a)"

definition rnd :: "rat \<Rightarrow> double" where
  "rnd q = (if q = 0 then Fin 0 else
     (let v = round_mag \<bar>q\<bar> in
      if 2 powi 1024 \<le> v then (if 0 < q then PInf else NInf)
      else Fin (if 0 < q then v else - v)))"

text \<open>
  The finite values of binary64: below \<open>2\<^sup>1\<^sup>0\<^sup>2\<^sup>4\<close> in magnitude, and an integer
  multiple of the unit in the last place of their magnitude.
\<close>

definition is_double :: "rat \<Rightarrow> bool" where
  "is_double v = (\<bar>v\<bar> < 2 powi 1024 \<and>
     of_int \<lfloor>\<bar>v\<bar> / 2 powi (ulp_exp \<bar>v\<bar>)\<rfloor> = \<bar>v\<bar> / 2 powi (ulp_exp \<bar>v\<bar>))"

fun fneg :: "double \<Rightarrow> double" where
  "fneg (Fin x) = Fin (- x)"
| "fneg PInf = NInf"
| "fneg NInf = PInf"
| "fneg NaN = NaN"

fun fabs :: "double \<Rightarrow> double" where
  "fabs (Fin x) = Fin \<bar>x\<bar>"
| "fabs PInf = PInf"
| "fabs NInf = PInf"
| "fabs NaN = NaN"

fun fadd :: "double \<Rightarrow> double \<Rightarrow> double" where
  "fadd NaN b = NaN"
| "fadd a NaN = NaN"
| "fadd PInf NInf = NaN"
| "fadd NInf PInf = NaN"
| "fadd PInf b = PInf"
| "fadd NInf b = NInf"
| "fadd a PInf = PInf"
| "fadd a NInf = NInf"
| "fadd (Fin x) (Fin y) = rnd (x + y)"

definition fsub :: "double \<Rightarrow> double \<Rightarrow> double" where
  "fsub a b = fadd a (fneg b)"

text \<open>The sign of an infinite product or quotient, from the sign of the finite operand.\<close>

definition signed_inf :: "bool \<Rightarrow> double" where
  "signed_inf positive = (if positive then PInf else NInf)"

fun fmul :: "double \<Rightarrow> double \<Rightarrow> double" where
  "fmul NaN b = NaN"
| "fmul a NaN = NaN"
| "fmul PInf PInf = PInf"
| "fmul PInf NInf = NInf"
| "fmul NInf PInf = NInf"
| "fmul NInf NInf = PInf"
| "fmul PInf (Fin y) = (if y = 0 then NaN else signed_inf (0 < y))"
| "fmul NInf (Fin y) = (if y = 0 then NaN else signed_inf (y < 0))"
| "fmul (Fin x) PInf = (if x = 0 then NaN else signed_inf (0 < x))"
| "fmul (Fin x) NInf = (if x = 0 then NaN else signed_inf (x < 0))"
| "fmul (Fin x) (Fin y) = rnd (x * y)"

text \<open>
  IEEE division by a divisor that is not zero. Python raises on a zero divisor before
  the hardware divides (\<open>truediv\<close> below), so the quotient by \<open>Fin 0\<close> is never used;
  it is NaN here.
\<close>

fun fdiv :: "double \<Rightarrow> double \<Rightarrow> double" where
  "fdiv NaN b = NaN"
| "fdiv a NaN = NaN"
| "fdiv PInf PInf = NaN"
| "fdiv PInf NInf = NaN"
| "fdiv NInf PInf = NaN"
| "fdiv NInf NInf = NaN"
| "fdiv (Fin x) PInf = Fin 0"
| "fdiv (Fin x) NInf = Fin 0"
| "fdiv PInf (Fin y) = (if y = 0 then NaN else signed_inf (0 < y))"
| "fdiv NInf (Fin y) = (if y = 0 then NaN else signed_inf (y < 0))"
| "fdiv (Fin x) (Fin y) = (if y = 0 then NaN else rnd (x / y))"

text \<open>Python's \<^verbatim>\<open><=\<close> and \<^verbatim>\<open><\<close> on floats: every comparison with NaN is false.\<close>

fun fle :: "double \<Rightarrow> double \<Rightarrow> bool" where
  "fle NaN b = False"
| "fle a NaN = False"
| "fle NInf b = True"
| "fle a PInf = True"
| "fle PInf b = False"
| "fle a NInf = False"
| "fle (Fin x) (Fin y) = (x \<le> y)"

fun flt :: "double \<Rightarrow> double \<Rightarrow> bool" where
  "flt NaN b = False"
| "flt a NaN = False"
| "flt PInf b = False"
| "flt a NInf = False"
| "flt NInf b = True"
| "flt a PInf = True"
| "flt (Fin x) (Fin y) = (x < y)"

text \<open>\<^verbatim>\<open>isfinite\<close>: neither an infinity nor NaN.\<close>

definition is_finite :: "double \<Rightarrow> bool" where
  "is_finite d = (case d of Fin v \<Rightarrow> True | _ \<Rightarrow> False)"

datatype error = ZeroDivisionError | TypeError | ValueError | KeyError | IndexError
  | AttributeError
  | OverflowError | JSONDecodeError

text \<open>Python's \<^verbatim>\<open>a / b\<close> on floats raises when \<^verbatim>\<open>b == 0\<close>.\<close>

definition truediv :: "double \<Rightarrow> double \<Rightarrow> error + double" where
  "truediv a b = (if b = Fin 0 then Inl ZeroDivisionError else Inr (fdiv a b))"

section \<open>The ring area calculator and the polygon metrics evaluator\<close>

text \<open>
  A vertex is a pair of floats and a ring a list of vertices (the specification's data
  model). On such a ring no operation of \<^verbatim>\<open>ring_area\<close> can raise: float
  multiplication, subtraction and addition overflow to an infinity or give NaN, both
  indices are in range, and the divisor is the literal \<^verbatim>\<open>2.0\<close>.
\<close>

type_synonym vertex = "double \<times> double"
type_synonym ring = "vertex list"

text \<open>
  One shoelace term, \<^verbatim>\<open>x1 * y2 - x2 * y1\<close> for \<^verbatim>\<open>coords[i]\<close> and
  \<^verbatim>\<open>coords[(i + 1) % len(coords)]\<close>.
\<close>

definition shoelace_term :: "ring \<Rightarrow> nat \<Rightarrow> double" where
  "shoelace_term coords i =
     (case coords ! i of (x1, y1) \<Rightarrow>
       (case coords ! ((i + 1) mod length coords) of (x2, y2) \<Rightarrow>
          fsub (fmul x1 y2) (fmul x2 y1)))"

text \<open>The loop \<^verbatim>\<open>for i in range(len(coords)): area += ...\<close>, over the indices left.\<close>

fun ring_area_loop :: "ring \<Rightarrow> nat list \<Rightarrow> double \<Rightarrow> double" where
  "ring_area_loop coords [] area = area"
| "ring_area_loop coords (i # rest) area =
     ring_area_loop coords rest (fadd area (shoelace_term coords i))"

definition ring_area :: "ring \<Rightarrow> double" where
  "ring_area coords =
     (if coords = [] then Fin 0
      else fdiv (fabs (ring_area_loop coords [0..<length coords] (Fin 0))) (Fin 2))"

text \<open>
  The builtin \<^verbatim>\<open>sum\<close>, on the floats \<^verbatim>\<open>ring_area\<close> returns. It starts from the integer 0
  and adds the first item to it with \<^verbatim>\<open>+\<close>, which gives the float \<^verbatim>\<open>0.0 + x\<close>. How it
  goes on depends on the interpreter, which the program does not fix:
  \<^item> CPython before 3.12 adds every further item to the running total (\<open>Plain\<close>);
  \<^item> CPython from 3.12 on keeps, beside the running total \<^verbatim>\<open>hi\<close>, a compensation \<^verbatim>\<open>lo\<close>
    of the rounding errors (Neumaier's summation, \<^verbatim>\<open>cs_add\<close> in \<^verbatim>\<open>bltinmodule.c\<close>), and
    adds it to the total at the end when it is finite and not zero (\<open>Compensated\<close>).
  The result on no item is the integer 0, which is equal to \<^verbatim>\<open>0.0\<close> and modelled as it.
  Every function that calls \<^verbatim>\<open>sum\<close> takes the algorithm as its first argument, and
  every property below holds for both.
\<close>

datatype sum_algorithm = Plain | Compensated

fun py_sum_from :: "double \<Rightarrow> double list \<Rightarrow> double" where
  "py_sum_from acc [] = acc"
| "py_sum_from acc (x # xs) = py_sum_from (fadd acc x) xs"

text \<open>
  \<^verbatim>\<open>t = hi + x; if fabs(hi) >= fabs(x): lo += (hi - t) + x; else: lo += (x - t) + hi;\<close>
  \<^verbatim>\<open>hi = t\<close>, and at the end \<^verbatim>\<open>hi + lo if lo and isfinite(lo) else hi\<close>.
\<close>

definition cs_add :: "double \<times> double \<Rightarrow> double \<Rightarrow> double \<times> double" where
  "cs_add cs x =
     (case cs of (hi, lo) \<Rightarrow>
        (let t = fadd hi x
         in if fle (fabs x) (fabs hi) then (t, fadd lo (fadd (fsub hi t) x))
            else (t, fadd lo (fadd (fsub x t) hi))))"

fun cs_sum_from :: "double \<times> double \<Rightarrow> double list \<Rightarrow> double \<times> double" where
  "cs_sum_from cs [] = cs"
| "cs_sum_from cs (x # xs) = cs_sum_from (cs_add cs x) xs"

definition cs_to_double :: "double \<times> double \<Rightarrow> double" where
  "cs_to_double cs =
     (case cs of (hi, lo) \<Rightarrow>
        if lo = Fin 0 then hi else if is_finite lo then fadd hi lo else hi)"

fun py_sum :: "sum_algorithm \<Rightarrow> double list \<Rightarrow> double" where
  "py_sum alg [] = Fin 0"
| "py_sum Plain (x # xs) = py_sum_from (fadd (Fin 0) x) xs"
| "py_sum Compensated (x # xs) = cs_to_double (cs_sum_from (fadd (Fin 0) x, Fin 0) xs)"

definition polygon_metrics ::
  "sum_algorithm \<Rightarrow> ring list \<Rightarrow> error + double \<times> double \<times> double" where
  "polygon_metrics alg rings =
     (if rings = [] then Inr (Fin 0, Fin 0, Fin 0)
      else
        (let outer_area = ring_area (rings ! 0);
             hole_area = py_sum alg (map ring_area (drop 1 rings));
             polygon_area = fsub outer_area hole_area
         in if fle polygon_area (Fin 0) then Inr (polygon_area, hole_area, Fin 0)
            else (case truediv hole_area polygon_area of
                    Inl e \<Rightarrow> Inl e
                  | Inr q \<Rightarrow> Inr (polygon_area, hole_area, fmul q (Fin 100)))))"

section \<open>The values of a parsed document\<close>

text \<open>
  \<^verbatim>\<open>json.load\<close> returns \<^verbatim>\<open>None\<close>, a \<^verbatim>\<open>bool\<close>, an \<^verbatim>\<open>int\<close>, a \<^verbatim>\<open>float\<close>, a \<^verbatim>\<open>str\<close>, a
  \<^verbatim>\<open>list\<close> or a \<^verbatim>\<open>dict\<close> with string keys. The traversal hands whatever it finds under
  \<^verbatim>\<open>coordinates\<close> to \<^verbatim>\<open>polygon_metrics\<close>, so the operations the program applies are
  modelled on all of these values, with the exception Python raises as the \<open>Inl\<close> result.
  A \<open>PDict\<close> lists the items of the dictionary in insertion order, each key once.
\<close>

datatype pyval = PNone | PBool bool | PInt int | PFloat double | PStr string
  | PList "pyval list" | PDict "(string \<times> pyval) list"

fun py_truthy :: "pyval \<Rightarrow> bool" where
  "py_truthy PNone = False"
| "py_truthy (PBool b) = b"
| "py_truthy (PInt n) = (n \<noteq> 0)"
| "py_truthy (PFloat d) = (d \<noteq> Fin 0)"
| "py_truthy (PStr s) = (s \<noteq> [])"
| "py_truthy (PList xs) = (xs \<noteq> [])"
| "py_truthy (PDict kvs) = (kvs \<noteq> [])"

text \<open>\<^verbatim>\<open>v.get(k, dflt)\<close>: only a dictionary has the method.\<close>

fun py_get :: "pyval \<Rightarrow> string \<Rightarrow> pyval \<Rightarrow> error + pyval" where
  "py_get (PDict kvs) k dflt = Inr (case map_of kvs k of None \<Rightarrow> dflt | Some v \<Rightarrow> v)"
| "py_get v k dflt = Inl AttributeError"

text \<open>
  Iteration (\<^verbatim>\<open>for x in v\<close>, and the unpacking \<^verbatim>\<open>a, b = v\<close>): a list gives its items, a
  string its characters, a dictionary its keys.
\<close>

fun py_iter :: "pyval \<Rightarrow> error + pyval list" where
  "py_iter (PList xs) = Inr xs"
| "py_iter (PStr s) = Inr (map (\<lambda>c. PStr [c]) s)"
| "py_iter (PDict kvs) = Inr (map (\<lambda>kv. PStr (fst kv)) kvs)"
| "py_iter v = Inl TypeError"

fun py_len :: "pyval \<Rightarrow> error + nat" where
  "py_len (PList xs) = Inr (length xs)"
| "py_len (PStr s) = Inr (length s)"
| "py_len (PDict kvs) = Inr (length kvs)"
| "py_len v = Inl TypeError"

text \<open>
  \<^verbatim>\<open>v[i]\<close> for an index \<open>i \<ge> 0\<close> and the slice \<^verbatim>\<open>v[1:]\<close>. The keys of a parsed dictionary
  are strings, so an integer is never one of them; a slice of a dictionary raises too
  (\<^verbatim>\<open>KeyError\<close>, or \<^verbatim>\<open>TypeError\<close> before Python 3.12), which \<^verbatim>\<open>polygon_metrics\<close> never
  reaches, because \<^verbatim>\<open>rings[0]\<close> has raised before.
\<close>

fun py_index :: "pyval \<Rightarrow> nat \<Rightarrow> error + pyval" where
  "py_index (PList xs) i = (if i < length xs then Inr (xs ! i) else Inl IndexError)"
| "py_index (PStr s) i = (if i < length s then Inr (PStr [s ! i]) else Inl IndexError)"
| "py_index (PDict kvs) i = Inl KeyError"
| "py_index v i = Inl TypeError"

fun py_tail :: "pyval \<Rightarrow> error + pyval" where
  "py_tail (PList xs) = Inr (PList (drop 1 xs))"
| "py_tail (PStr s) = Inr (PStr (drop 1 s))"
| "py_tail (PDict kvs) = Inl KeyError"
| "py_tail v = Inl TypeError"

definition py_unpack2 :: "pyval \<Rightarrow> error + pyval \<times> pyval" where
  "py_unpack2 v =
     (case py_iter v of
        Inl e \<Rightarrow> Inl e
      | Inr items \<Rightarrow> (case items of [a, b] \<Rightarrow> Inr (a, b) | _ \<Rightarrow> Inl ValueError))"

text \<open>
  Arithmetic. A \<^verbatim>\<open>bool\<close> is an \<^verbatim>\<open>int\<close> (0 or 1); integers are unbounded and exact;
  an operation on an integer and a float first converts the integer (correctly rounded,
  \<^verbatim>\<open>OverflowError\<close> if it is too large for a float). \<^verbatim>\<open>*\<close> also repeats a string or a
  list an integer number of times; a number of times that does not fit a machine index
  (64 bits, signed) raises \<^verbatim>\<open>OverflowError\<close>. (Beyond that, the memory limit of a
  repetition is not modelled: a repeated string or list does not survive anyway,
  because every product of the program is an operand of \<^verbatim>\<open>-\<close>, which is defined on
  numbers only.)
\<close>

datatype num = NInt int | NFloat double

fun as_num :: "pyval \<Rightarrow> num option" where
  "as_num (PBool b) = Some (NInt (if b then 1 else 0))"
| "as_num (PInt n) = Some (NInt n)"
| "as_num (PFloat d) = Some (NFloat d)"
| "as_num v = None"

definition int_to_float :: "int \<Rightarrow> error + double" where
  "int_to_float n = (case rnd (of_int n) of Fin v \<Rightarrow> Inr (Fin v) | _ \<Rightarrow> Inl OverflowError)"

fun num_to_float :: "num \<Rightarrow> error + double" where
  "num_to_float (NInt n) = int_to_float n"
| "num_to_float (NFloat d) = Inr d"

definition float_op :: "(double \<Rightarrow> double \<Rightarrow> double) \<Rightarrow> num \<Rightarrow> num \<Rightarrow> error + double" where
  "float_op f a b =
     (case num_to_float a of
        Inl e \<Rightarrow> Inl e
      | Inr x \<Rightarrow> (case num_to_float b of Inl e \<Rightarrow> Inl e | Inr y \<Rightarrow> Inr (f x y)))"

fun num_mul :: "num \<Rightarrow> num \<Rightarrow> error + pyval" where
  "num_mul (NInt m) (NInt n) = Inr (PInt (m * n))"
| "num_mul a b = map_sum id PFloat (float_op fmul a b)"

fun num_sub :: "num \<Rightarrow> num \<Rightarrow> error + pyval" where
  "num_sub (NInt m) (NInt n) = Inr (PInt (m - n))"
| "num_sub a b = map_sum id PFloat (float_op fsub a b)"

definition index_sized :: "int \<Rightarrow> bool" where
  "index_sized n = (- (2 ^ 63) \<le> n \<and> n < 2 ^ 63)"

fun seq_repeat :: "pyval \<Rightarrow> num \<Rightarrow> error + pyval" where
  "seq_repeat (PStr s) (NInt n) =
     (if index_sized n then Inr (PStr (concat (replicate (nat n) s))) else Inl OverflowError)"
| "seq_repeat (PList xs) (NInt n) =
     (if index_sized n then Inr (PList (concat (replicate (nat n) xs))) else Inl OverflowError)"
| "seq_repeat v n = Inl TypeError"

definition py_mul :: "pyval \<Rightarrow> pyval \<Rightarrow> error + pyval" where
  "py_mul a b =
     (case (as_num a, as_num b) of
        (Some x, Some y) \<Rightarrow> num_mul x y
      | (None, Some y) \<Rightarrow> seq_repeat a y
      | (Some x, None) \<Rightarrow> seq_repeat b x
      | (None, None) \<Rightarrow> Inl TypeError)"

definition py_sub :: "pyval \<Rightarrow> pyval \<Rightarrow> error + pyval" where
  "py_sub a b =
     (case (as_num a, as_num b) of
        (Some x, Some y) \<Rightarrow> num_sub x y
      | _ \<Rightarrow> Inl TypeError)"

text \<open>\<^verbatim>\<open>area += t\<close>, where \<^verbatim>\<open>area\<close> is a float (it starts as \<^verbatim>\<open>0.0\<close>).\<close>

definition float_iadd :: "double \<Rightarrow> pyval \<Rightarrow> error + double" where
  "float_iadd area t =
     (case as_num t of
        None \<Rightarrow> Inl TypeError
      | Some x \<Rightarrow> float_op fadd (NFloat area) x)"

section \<open>The two evaluators on the values of a parsed document\<close>

text \<open>
  \<^verbatim>\<open>ring_area\<close> and \<^verbatim>\<open>polygon_metrics\<close> as Python runs them on any parsed value:
  statement by statement, the first exception ends the call. \<open>py_vertex\<close> is
  \<^verbatim>\<open>x, y = coords[i]\<close>.
\<close>

definition py_vertex :: "pyval \<Rightarrow> nat \<Rightarrow> error + pyval \<times> pyval" where
  "py_vertex coords i =
     (case py_index coords i of Inl e \<Rightarrow> Inl e | Inr v \<Rightarrow> py_unpack2 v)"

definition py_shoelace_term :: "pyval \<Rightarrow> nat \<Rightarrow> nat \<Rightarrow> error + pyval" where
  "py_shoelace_term coords n i =
     (case py_vertex coords i of
        Inl e \<Rightarrow> Inl e
      | Inr (x1, y1) \<Rightarrow>
     (case py_vertex coords ((i + 1) mod n) of
        Inl e \<Rightarrow> Inl e
      | Inr (x2, y2) \<Rightarrow>
     (case py_mul x1 y2 of
        Inl e \<Rightarrow> Inl e
      | Inr a \<Rightarrow>
     (case py_mul x2 y1 of
        Inl e \<Rightarrow> Inl e
      | Inr b \<Rightarrow> py_sub a b))))"

fun py_ring_area_loop :: "pyval \<Rightarrow> nat \<Rightarrow> nat list \<Rightarrow> double \<Rightarrow> error + double" where
  "py_ring_area_loop coords n [] area = Inr area"
| "py_ring_area_loop coords n (i # rest) area =
     (case py_shoelace_term coords n i of
        Inl e \<Rightarrow> Inl e
      | Inr t \<Rightarrow>
     (case float_iadd area t of
        Inl e \<Rightarrow> Inl e
      | Inr area' \<Rightarrow> py_ring_area_loop coords n rest area'))"

definition py_ring_area :: "pyval \<Rightarrow> error + double" where
  "py_ring_area coords =
     (if \<not> py_truthy coords then Inr (Fin 0)
      else (case py_len coords of
              Inl e \<Rightarrow> Inl e
            | Inr n \<Rightarrow>
           (case py_ring_area_loop coords n [0..<n] (Fin 0) of
              Inl e \<Rightarrow> Inl e
            | Inr area \<Rightarrow> truediv (fabs area) (Fin 2))))"

text \<open>
  \<^verbatim>\<open>sum(ring_area(r) for r in rings[1:])\<close>: the generator calls \<^verbatim>\<open>ring_area\<close> on one
  item after the other, and \<^verbatim>\<open>sum\<close> adds each result to its total. Adding floats never
  raises, so the sum raises exactly when a call of \<^verbatim>\<open>ring_area\<close> does (the first one
  that does), and otherwise it is the sum of the areas.
\<close>

fun py_ring_areas :: "pyval list \<Rightarrow> error + double list" where
  "py_ring_areas [] = Inr []"
| "py_ring_areas (r # rest) =
     (case py_ring_area r of
        Inl e \<Rightarrow> Inl e
      | Inr a \<Rightarrow>
     (case py_ring_areas rest of
        Inl e \<Rightarrow> Inl e
      | Inr areas \<Rightarrow> Inr (a # areas)))"

definition py_polygon_metrics ::
  "sum_algorithm \<Rightarrow> pyval \<Rightarrow> error + double \<times> double \<times> double" where
  "py_polygon_metrics alg rings =
     (if \<not> py_truthy rings then Inr (Fin 0, Fin 0, Fin 0)
      else
     (case py_index rings 0 of
        Inl e \<Rightarrow> Inl e
      | Inr outer \<Rightarrow>
     (case py_ring_area outer of
        Inl e \<Rightarrow> Inl e
      | Inr outer_area \<Rightarrow>
     (case py_tail rings of
        Inl e \<Rightarrow> Inl e
      | Inr tl_rings \<Rightarrow>
     (case py_iter tl_rings of
        Inl e \<Rightarrow> Inl e
      | Inr holes \<Rightarrow>
     (case py_ring_areas holes of
        Inl e \<Rightarrow> Inl e
      | Inr areas \<Rightarrow>
     (let hole_area = py_sum alg areas;
          polygon_area = fsub outer_area hole_area
      in if fle polygon_area (Fin 0) then Inr (polygon_area, hole_area, Fin 0)
         else (case truediv hole_area polygon_area of
                 Inl e \<Rightarrow> Inl e
               | Inr q \<Rightarrow> Inr (polygon_area, hole_area, fmul q (Fin 100))))))))))"

section \<open>The traversal: \<^verbatim>\<open>process_geojson\<close>\<close>

text \<open>
  A row is \<^verbatim>\<open>(index, polygon_area, hole_area, hole_pct)\<close>. \<^verbatim>\<open>process_geojson\<close> is a
  generator: it yields rows until it returns or raises. Its model returns the rows
  yielded and the exception that ended it, if one did. The argument is the outcome of
  \<^verbatim>\<open>open\<close> and \<^verbatim>\<open>json.load\<close>: the parsed document, or the exception they raised.

  \<open>multipolygon_loop\<close> is the inner loop \<^verbatim>\<open>for poly in coords\<close>; \<open>feature_step\<close> is the
  body of \<^verbatim>\<open>for feat in features\<close>, from the index before to the rows it yields, the
  index after and the exception it raised; \<open>features_loop\<close> is that loop.
\<close>

type_synonym row = "nat \<times> double \<times> double \<times> double"

fun multipolygon_loop ::
  "sum_algorithm \<Rightarrow> nat \<Rightarrow> pyval list \<Rightarrow> row list \<times> nat \<times> error option" where
  "multipolygon_loop alg index [] = ([], index, None)"
| "multipolygon_loop alg index (poly # rest) =
     (case py_polygon_metrics alg poly of
        Inl e \<Rightarrow> ([], index + 1, Some e)
      | Inr (polygon_area, hole_area, hole_pct) \<Rightarrow>
          (case multipolygon_loop alg (index + 1) rest of
             (rows, index', err) \<Rightarrow>
               ((index + 1, polygon_area, hole_area, hole_pct) # rows, index', err)))"

definition feature_step ::
  "sum_algorithm \<Rightarrow> nat \<Rightarrow> pyval \<Rightarrow> row list \<times> nat \<times> error option" where
  "feature_step alg index feat =
     (case py_get feat ''geometry'' (PDict []) of
        Inl e \<Rightarrow> ([], index, Some e)
      | Inr geom \<Rightarrow>
     (case py_get geom ''type'' PNone of
        Inl e \<Rightarrow> ([], index, Some e)
      | Inr gtype \<Rightarrow>
     (case py_get geom ''coordinates'' (PList []) of
        Inl e \<Rightarrow> ([], index, Some e)
      | Inr coords \<Rightarrow>
          if gtype = PStr ''Polygon'' then
            (case py_polygon_metrics alg coords of
               Inl e \<Rightarrow> ([], index + 1, Some e)
             | Inr (polygon_area, hole_area, hole_pct) \<Rightarrow>
                 ([(index + 1, polygon_area, hole_area, hole_pct)], index + 1, None))
          else if gtype = PStr ''MultiPolygon'' then
            (case py_iter coords of
               Inl e \<Rightarrow> ([], index, Some e)
             | Inr polys \<Rightarrow> multipolygon_loop alg index polys)
          else ([], index, None))))"

fun features_loop ::
  "sum_algorithm \<Rightarrow> nat \<Rightarrow> pyval list \<Rightarrow> row list \<times> error option" where
  "features_loop alg index [] = ([], None)"
| "features_loop alg index (feat # rest) =
     (case feature_step alg index feat of
        (rows, index', Some e) \<Rightarrow> (rows, Some e)
      | (rows, index', None) \<Rightarrow>
          (case features_loop alg index' rest of (rows', err) \<Rightarrow> (rows @ rows', err)))"

definition process_geojson ::
  "sum_algorithm \<Rightarrow> error + pyval \<Rightarrow> row list \<times> error option" where
  "process_geojson alg parsed =
     (case parsed of
        Inl e \<Rightarrow> ([], Some e)
      | Inr data \<Rightarrow>
     (case py_get data ''type'' PNone of
        Inl e \<Rightarrow> ([], Some e)
      | Inr t \<Rightarrow>
          if t = PStr ''FeatureCollection'' then
            (case py_get data ''features'' (PList []) of
               Inl e \<Rightarrow> ([], Some e)
             | Inr features \<Rightarrow>
                 (case py_iter features of
                    Inl e \<Rightarrow> ([], Some e)
                  | Inr feats \<Rightarrow> features_loop alg 0 feats))
          else features_loop alg 0 [data]))"

section \<open>Vocabulary of the properties\<close>

text \<open>
  A ring of float vertices as the parsed value \<^verbatim>\<open>[[x, y], ...]\<close>, and a list of such
  rings as the value of \<^verbatim>\<open>coordinates\<close> of a polygon.
\<close>

definition embed_vertex :: "vertex \<Rightarrow> pyval" where
  "embed_vertex v = PList [PFloat (fst v), PFloat (snd v)]"

definition embed_ring :: "ring \<Rightarrow> pyval" where
  "embed_ring r = PList (map embed_vertex r)"

definition embed_rings :: "ring list \<Rightarrow> pyval" where
  "embed_rings rs = PList (map embed_ring rs)"

text \<open>
  A feature that has no \<^verbatim>\<open>geometry\<close> key, or whose geometry is an object with no
  \<^verbatim>\<open>type\<close> key or with a type other than \<^verbatim>\<open>"Polygon"\<close> and \<^verbatim>\<open>"MultiPolygon"\<close>.
\<close>

definition lacks_polygon_geometry :: "pyval \<Rightarrow> bool" where
  "lacks_polygon_geometry feat =
     (case feat of
        PDict kvs \<Rightarrow>
          (case map_of kvs ''geometry'' of
             None \<Rightarrow> True
           | Some (PDict g) \<Rightarrow>
               (case map_of g ''type'' of
                  None \<Rightarrow> True
                | Some t \<Rightarrow> t \<noteq> PStr ''Polygon'' \<and> t \<noteq> PStr ''MultiPolygon'')
           | Some _ \<Rightarrow> False)
      | _ \<Rightarrow> False)"

definition is_dict :: "pyval \<Rightarrow> bool" where
  "is_dict v = (case v of PDict kvs \<Rightarrow> True | _ \<Rightarrow> False)"

text \<open>
  The traversal as the specification describes it. A document is a collection of
  features (an object of type \<^verbatim>\<open>"FeatureCollection"\<close>, whose features are the items of
  \<^verbatim>\<open>features\<close>) or a single feature. The polygon instances of a feature are the ring
  lists the specification counts: the \<^verbatim>\<open>coordinates\<close> of a \<^verbatim>\<open>Polygon\<close>, each item of the
  \<^verbatim>\<open>coordinates\<close> of a \<^verbatim>\<open>MultiPolygon\<close>, and nothing for anything else. The polygon
  instances of a document are those of its features, in document order.
\<close>

definition feature_polygons :: "pyval \<Rightarrow> pyval list" where
  "feature_polygons feat =
     (case feat of
        PDict kvs \<Rightarrow>
          (case map_of kvs ''geometry'' of
             Some (PDict g) \<Rightarrow>
               if map_of g ''type'' = Some (PStr ''Polygon'') then
                 [case map_of g ''coordinates'' of None \<Rightarrow> PList [] | Some coords \<Rightarrow> coords]
               else if map_of g ''type'' = Some (PStr ''MultiPolygon'') then
                 (case map_of g ''coordinates'' of
                    None \<Rightarrow> []
                  | Some coords \<Rightarrow>
                      (case py_iter coords of Inl e \<Rightarrow> [] | Inr polys \<Rightarrow> polys))
               else []
           | _ \<Rightarrow> [])
      | _ \<Rightarrow> [])"

definition polygon_instances :: "pyval \<Rightarrow> nat" where
  "polygon_instances feat = length (feature_polygons feat)"

definition document_features :: "pyval \<Rightarrow> pyval list" where
  "document_features data =
     (case data of
        PDict kvs \<Rightarrow>
          if map_of kvs ''type'' = Some (PStr ''FeatureCollection'') then
            (case map_of kvs ''features'' of
               None \<Rightarrow> []
             | Some features \<Rightarrow>
                 (case py_iter features of Inl e \<Rightarrow> [] | Inr feats \<Rightarrow> feats))
          else [data]
      | _ \<Rightarrow> [data])"

definition document_polygons :: "pyval \<Rightarrow> pyval list" where
  "document_polygons data = concat (map feature_polygons (document_features data))"

text \<open>
  A document that follows the data model of the specification: the document and its
  features are objects, a geometry is an object, the coordinates of a \<^verbatim>\<open>Polygon\<close> are a
  list of rings, those of a \<^verbatim>\<open>MultiPolygon\<close> a list of such lists, a ring is a list of
  positions and a position is a list of exactly two floats. (A key that is absent is
  read as its default by the program, and is allowed here.)
\<close>

fun is_position :: "pyval \<Rightarrow> bool" where
  "is_position (PList [PFloat x, PFloat y]) = True"
| "is_position v = False"

definition is_ring :: "pyval \<Rightarrow> bool" where
  "is_ring v = (case v of PList ps \<Rightarrow> list_all is_position ps | _ \<Rightarrow> False)"

definition is_ring_list :: "pyval \<Rightarrow> bool" where
  "is_ring_list v = (case v of PList rs \<Rightarrow> list_all is_ring rs | _ \<Rightarrow> False)"

definition is_polygon_list :: "pyval \<Rightarrow> bool" where
  "is_polygon_list v = (case v of PList ps \<Rightarrow> list_all is_ring_list ps | _ \<Rightarrow> False)"

definition well_formed_feature :: "pyval \<Rightarrow> bool" where
  "well_formed_feature feat =
     (case feat of
        PDict kvs \<Rightarrow>
          (case map_of kvs ''geometry'' of
             None \<Rightarrow> True
           | Some (PDict g) \<Rightarrow>
               if map_of g ''type'' = Some (PStr ''Polygon'') then
                 (case map_of g ''coordinates'' of None \<Rightarrow> True | Some c \<Rightarrow> is_ring_list c)
               else if map_of g ''type'' = Some (PStr ''MultiPolygon'') then
                 (case map_of g ''coordinates'' of None \<Rightarrow> True | Some c \<Rightarrow> is_polygon_list c)
               else True
           | Some _ \<Rightarrow> False)
      | _ \<Rightarrow> False)"

definition well_formed_document :: "pyval \<Rightarrow> bool" where
  "well_formed_document data =
     (case data of
        PDict kvs \<Rightarrow>
          if map_of kvs ''type'' = Some (PStr ''FeatureCollection'') then
            (case map_of kvs ''features'' of
               None \<Rightarrow> True
             | Some (PList feats) \<Rightarrow> list_all well_formed_feature feats
             | Some _ \<Rightarrow> False)
          else well_formed_feature data
      | _ \<Rightarrow> False)"

text \<open>Documents and features used as examples.\<close>

definition feature_collection :: "pyval list \<Rightarrow> pyval" where
  "feature_collection feats =
     PDict [(''type'', PStr ''FeatureCollection''), (''features'', PList feats)]"

definition polygon_feature :: "pyval \<Rightarrow> pyval" where
  "polygon_feature coords =
     PDict [(''type'', PStr ''Feature''),
            (''geometry'', PDict [(''type'', PStr ''Polygon''), (''coordinates'', coords)])]"

definition multipolygon_feature :: "pyval \<Rightarrow> pyval" where
  "multipolygon_feature coords =
     PDict [(''type'', PStr ''Feature''),
            (''geometry'', PDict [(''type'', PStr ''MultiPolygon''), (''coordinates'', coords)])]"

definition point_feature :: "pyval \<Rightarrow> pyval" where
  "point_feature coords =
     PDict [(''type'', PStr ''Feature''),
            (''geometry'', PDict [(''type'', PStr ''Point''), (''coordinates'', coords)])]"

definition square :: ring where
  "square = [(Fin 0, Fin 0), (Fin 4, Fin 0), (Fin 4, Fin 4), (Fin 0, Fin 4)]"

text \<open>
  The same square as the parsed value of \<^verbatim>\<open>[[0, 0], [4, 0], [4, 4], [0, 4]]\<close>, whose
  coordinates are integers, and in the other orientation.
\<close>

definition int_vertex :: "int \<times> int \<Rightarrow> pyval" where
  "int_vertex v = PList [PInt (fst v), PInt (snd v)]"

definition int_square :: pyval where
  "int_square = PList (map int_vertex [(0, 0), (4, 0), (4, 4), (0, 4)])"

definition int_square_reversed :: pyval where
  "int_square_reversed = PList (map int_vertex [(0, 4), (4, 4), (4, 0), (0, 0)])"

text \<open>
  A closed ring around a thin triangle: its first position is repeated as its last, as
  the interchange format prescribes. The coordinates are \<open>2\<^sup>5\<^sup>3\<close>, 0, 1, -1 and \<open>-2\<^sup>-\<^sup>5\<^sup>3\<close>.
\<close>

definition thin_triangle :: ring where
  "thin_triangle =
     [(Fin 9007199254740992, Fin 0), (Fin 0, Fin 1),
      (Fin (- 1), Fin (- (1 / 9007199254740992))), (Fin 9007199254740992, Fin 0)]"

text \<open>
  The example of the specification: a 10 by 10 square with a 2 by 2 square hole.
\<close>

definition square_10 :: ring where
  "square_10 = [(Fin 0, Fin 0), (Fin 10, Fin 0), (Fin 10, Fin 10), (Fin 0, Fin 10)]"

definition hole_2 :: ring where
  "hole_2 = [(Fin 4, Fin 4), (Fin 6, Fin 4), (Fin 6, Fin 6), (Fin 4, Fin 6)]"

text \<open>
  A second hole in the 10 by 10 square, of 2 by 8; a strip of \<open>2\<^sup>5\<^sup>3\<close> by 1 and a square of
  1 by 1; and a square whose positions carry an altitude as a third component, which the
  interchange format allows.
\<close>

definition hole_2_by_8 :: ring where
  "hole_2_by_8 = [(Fin 7, Fin 1), (Fin 9, Fin 1), (Fin 9, Fin 9), (Fin 7, Fin 9)]"

definition strip :: ring where
  "strip = [(Fin 0, Fin 0), (Fin 9007199254740992, Fin 0),
            (Fin 9007199254740992, Fin 1), (Fin 0, Fin 1)]"

definition unit_square :: ring where
  "unit_square = [(Fin 0, Fin 0), (Fin 1, Fin 0), (Fin 1, Fin 1), (Fin 0, Fin 1)]"

definition altitude_square :: pyval where
  "altitude_square =
     PList [PList [PFloat (Fin 0), PFloat (Fin 0), PFloat (Fin 7)],
            PList [PFloat (Fin 4), PFloat (Fin 0), PFloat (Fin 7)],
            PList [PFloat (Fin 4), PFloat (Fin 4), PFloat (Fin 7)],
            PList [PFloat (Fin 0), PFloat (Fin 4), PFloat (Fin 7)]]"

text \<open>
  The example documents of the specification: a \<^verbatim>\<open>Polygon\<close> feature followed by a
  \<^verbatim>\<open>MultiPolygon\<close> feature of two polygons (the second one with a hole), and the same
  with a \<^verbatim>\<open>Point\<close> feature between the two.
\<close>

definition example_features :: "pyval list" where
  "example_features =
     [polygon_feature (embed_rings [square]),
      multipolygon_feature (PList [embed_rings [square], embed_rings [square_10, hole_2]])]"

definition example_features_with_point :: "pyval list" where
  "example_features_with_point =
     [polygon_feature (embed_rings [square]),
      point_feature (PList [PFloat (Fin 1), PFloat (Fin 2)]),
      multipolygon_feature (PList [embed_rings [square], embed_rings [square_10, hole_2]])]"

text \<open>
  Kinds of float values: those a rounded operation can return (NaN, an infinity, or a
  finite value of binary64), and those an area can be (not negative).
\<close>

definition representable :: "double \<Rightarrow> bool" where
  "representable d = (case d of Fin v \<Rightarrow> is_double v | _ \<Rightarrow> True)"

definition nonneg_or_nan :: "double \<Rightarrow> bool" where
  "nonneg_or_nan d = (case d of Fin v \<Rightarrow> 0 \<le> v \<and> is_double v | PInf \<Rightarrow> True | NInf \<Rightarrow> False | NaN \<Rightarrow> True)"

text \<open>
  The invariant of the compensated sum of areas: the running total is not negative,
  and the compensation, while it is finite, does not take it below zero.
\<close>

definition cs_nonneg :: "double \<times> double \<Rightarrow> bool" where
  "cs_nonneg cs =
     (case cs of (hi, lo) \<Rightarrow>
        (case hi of
           Fin f \<Rightarrow> 0 \<le> f \<and> is_double f \<and> (case lo of Fin c \<Rightarrow> - f \<le> c | _ \<Rightarrow> True)
         | PInf \<Rightarrow> True
         | NInf \<Rightarrow> False
         | NaN \<Rightarrow> True))"

text \<open>
  What a hole percentage is, beside a polygon area: NaN when the polygon area is NaN,
  and a finite number that is not negative otherwise.
\<close>

definition percent_ok :: "double \<Rightarrow> double \<Rightarrow> bool" where
  "percent_ok polygon_area hole_pct =
     (if polygon_area = NaN then hole_pct = NaN
      else (case hole_pct of Fin v \<Rightarrow> 0 \<le> v | _ \<Rightarrow> False))"

section \<open>Properties of rounding\<close>

text \<open>Powers of two, \<open>ilog2\<close> and the rounding of a rational to an integer.\<close>

lemma two_powi_pos [simp]: "(0::rat) < 2 powi n"
  by (simp add: zero_less_power_int)

lemma two_powi_add: "(2::rat) powi (m + n) = 2 powi m * 2 powi n"
  by (simp add: power_int_add)

lemma two_powi_diff: "(2::rat) powi (m - n) = 2 powi m / 2 powi n"
  by (simp add: power_int_diff)

lemma two_powi_Suc: "(2::rat) powi (n + 1) = 2 * 2 powi n"
  by (simp add: power_int_add)

lemma two_powi_le: "m \<le> n \<Longrightarrow> (2::rat) powi m \<le> 2 powi n"
  by (simp add: power_int_increasing)

lemma two_powi_less: "m < n \<Longrightarrow> (2::rat) powi m < 2 powi n"
  by (simp add: power_int_strict_increasing)

lemma two_powi_le_iff: "((2::rat) powi m \<le> 2 powi n) = (m \<le> n)"
  by (metis two_powi_le two_powi_less not_le)

lemma two_powi_less_iff: "((2::rat) powi m < 2 powi n) = (m < n)"
  by (metis two_powi_le two_powi_less not_le)

lemma bitlen_bounds_rat:
  assumes "0 < p"
  shows "2 powi (bitlen p - 1) \<le> rat_of_int p" "rat_of_int p < 2 powi (bitlen p)"
proof -
  from assms have b: "1 \<le> bitlen p"
    using bitlen_eq_zero_iff [of p] bitlen_nonneg [of p] by linarith
  from bitlen_bounds [OF assms] have lo: "2 ^ nat (bitlen p - 1) \<le> p" and hi: "p < 2 ^ nat (bitlen p)"
    by auto
  have "rat_of_int (2 ^ nat (bitlen p - 1)) \<le> rat_of_int p"
    using lo by (simp only: of_int_le_iff)
  then show "2 powi (bitlen p - 1) \<le> rat_of_int p"
    using b by (simp add: power_int_def)
  have "rat_of_int p < rat_of_int (2 ^ nat (bitlen p))"
    using hi by (simp only: of_int_less_iff)
  then show "rat_of_int p < 2 powi (bitlen p)"
    using b by (simp add: power_int_def)
qed

lemma ilog2_bounds:
  assumes "0 < a"
  shows "2 powi (ilog2 a) \<le> a" "a < 2 powi (ilog2 a + 1)"
proof -
  obtain p q where pq: "quotient_of a = (p, q)" by (cases "quotient_of a") auto
  then have q: "0 < q" and a: "a = rat_of_int p / rat_of_int q"
    by (auto dest: quotient_of_denom_pos quotient_of_div)
  from assms a q have p: "0 < p"
    by (simp add: zero_less_divide_iff)
  define d where "d = bitlen p - bitlen q"
  note P = bitlen_bounds_rat [OF p] and Q = bitlen_bounds_rat [OF q]
  have qpos: "0 < rat_of_int q" using q by simp
  have "a * rat_of_int q = rat_of_int p" using a q by simp
  have hi: "a < 2 powi (d + 1)"
  proof -
    have "rat_of_int p < 2 powi (d + 1) * 2 powi (bitlen q - 1)"
      using P(2) by (simp add: d_def flip: two_powi_add)
    also have "\<dots> \<le> 2 powi (d + 1) * rat_of_int q"
      using Q(1) by (simp add: mult_left_mono)
    finally show ?thesis using qpos by (simp add: a pos_divide_less_eq)
  qed
  have lo: "2 powi (d - 1) \<le> a"
  proof -
    have "2 powi (d - 1) * rat_of_int q \<le> 2 powi (d - 1) * 2 powi (bitlen q)"
      using Q(2) by (simp add: mult_left_mono)
    also have "\<dots> = 2 powi (bitlen p - 1)"
      by (simp add: d_def flip: two_powi_add)
    also have "\<dots> \<le> rat_of_int p" by (rule P(1))
    finally show ?thesis using qpos by (simp add: a pos_le_divide_eq)
  qed
  have il: "ilog2 a = (if 2 powi d \<le> a then d else d - 1)"
    by (simp add: ilog2_def pq d_def Let_def)
  show "2 powi (ilog2 a) \<le> a"
    using lo by (simp add: il)
  show "a < 2 powi (ilog2 a + 1)"
    using hi by (simp add: il not_le)
qed

lemma ilog2_unique:
  assumes "2 powi e \<le> a" "a < 2 powi (e + 1)"
  shows "ilog2 a = e"
proof -
  have pos: "0 < a" using assms(1) two_powi_pos [of e] by linarith
  note B = ilog2_bounds [OF pos]
  have "2 powi e < (2::rat) powi (ilog2 a + 1)" using assms(1) B(2) by linarith
  then have 1: "e < ilog2 a + 1" by (simp add: two_powi_less_iff)
  have "2 powi (ilog2 a) < (2::rat) powi (e + 1)" using assms(2) B(1) by linarith
  then have 2: "ilog2 a < e + 1" by (simp add: two_powi_less_iff)
  from 1 2 show ?thesis by linarith
qed

lemma ilog2_mono:
  assumes "0 < a" "a \<le> b"
  shows "ilog2 a \<le> ilog2 b"
proof -
  have pos: "0 < b" using assms by linarith
  have "2 powi (ilog2 a) < (2::rat) powi (ilog2 b + 1)"
    using ilog2_bounds(1) [OF assms(1)] ilog2_bounds(2) [OF pos] assms(2) by linarith
  then show ?thesis by (simp add: two_powi_less_iff)
qed

lemma rne_of_int [simp]: "rne (rat_of_int n) = n"
  by (simp add: rne_def)

lemma rne_bounds: "rat_of_int (rne x) - 1 / 2 \<le> x" "x \<le> rat_of_int (rne x) + 1 / 2"
  unfolding rne_def Let_def by (auto simp: not_less) linarith+

lemma rne_mono:
  assumes "x \<le> y"
  shows "rne x \<le> rne y"
proof (rule ccontr)
  assume "\<not> rne x \<le> rne y"
  then have gt: "rne y + 1 \<le> rne x" by simp
  then have "rat_of_int (rne y) + 1 \<le> rat_of_int (rne x)"
    by (metis of_int_1 of_int_add of_int_le_iff)
  with rne_bounds(1) [of x] rne_bounds(2) [of y] assms
  have eq: "x = y" "x = rat_of_int (rne y) + 1 / 2" "rat_of_int (rne x) = rat_of_int (rne y) + 1"
    by linarith+
  then show False using gt by simp
qed

lemma rnd_zero [simp]: "rnd 0 = Fin 0"
  by (simp add: rnd_def)

lemma rnd_neg: "rnd (- q) = fneg (rnd q)"
  by (simp add: rnd_def Let_def)

lemma rnd_pos: "0 < a \<Longrightarrow> rnd a = (if 2 powi 1024 \<le> round_mag a then PInf else Fin (round_mag a))"
  by (simp add: rnd_def Let_def)

lemma ulp_exp_ge: "- 1074 \<le> ulp_exp a"
  by (simp add: ulp_exp_def)

lemma ulp_exp_mono: "0 < a \<Longrightarrow> a \<le> b \<Longrightarrow> ulp_exp a \<le> ulp_exp b"
  using ilog2_mono [of a b] by (simp add: ulp_exp_def)

lemma less_ulp_top: 
  assumes "0 < a"
  shows "a < 2 powi (ulp_exp a + 53)"
proof -
  have "ilog2 a + 1 \<le> ulp_exp a + 53" by (simp add: ulp_exp_def)
  then have "(2::rat) powi (ilog2 a + 1) \<le> 2 powi (ulp_exp a + 53)" by (rule two_powi_le)
  with ilog2_bounds(2) [OF assms] show ?thesis by linarith
qed

lemma normal_ge_ulp_bottom:
  assumes "0 < a" "- 1022 \<le> ilog2 a"
  shows "2 powi (ulp_exp a + 52) \<le> a"
proof -
  from assms(2) have "ulp_exp a + 52 = ilog2 a" by (simp add: ulp_exp_def)
  with ilog2_bounds(1) [OF assms(1)] show ?thesis by simp
qed

lemma rne_nonneg: "0 \<le> x \<Longrightarrow> 0 \<le> rne x"
  using rne_mono [of 0 x] rne_of_int [of 0] by simp

lemma rne_two_power: "rne (2 ^ n) = 2 ^ n"
  using rne_of_int [of "2 ^ n"] by simp

lemma round_mag_nonneg: "0 \<le> a \<Longrightarrow> 0 \<le> round_mag a"
  by (simp add: round_mag_def rne_nonneg)

lemma round_mag_le_top:
  assumes "0 < a"
  shows "round_mag a \<le> 2 powi (ulp_exp a + 53)"
proof -
  have "a / 2 powi (ulp_exp a) \<le> 2 ^ 53"
    using less_ulp_top [OF assms] by (simp add: two_powi_add pos_divide_le_eq mult.commute)
  then have "rne (a / 2 powi (ulp_exp a)) \<le> 2 ^ 53"
    using rne_mono rne_two_power [of 53] by metis
  then have "rat_of_int (rne (a / 2 powi (ulp_exp a))) \<le> 2 ^ 53"
    by (metis of_int_le_iff of_int_numeral of_int_power)
  then show ?thesis
    by (simp add: round_mag_def two_powi_add mult.commute)
qed

lemma round_mag_ge_bottom:
  assumes "0 < a" "- 1022 \<le> ilog2 a"
  shows "2 powi (ulp_exp a + 52) \<le> round_mag a"
proof -
  have "2 ^ 52 \<le> a / 2 powi (ulp_exp a)"
    using normal_ge_ulp_bottom [OF assms] by (simp add: two_powi_add pos_le_divide_eq mult.commute)
  then have "2 ^ 52 \<le> rne (a / 2 powi (ulp_exp a))"
    using rne_mono rne_two_power [of 52] by metis
  then have "2 ^ 52 \<le> rat_of_int (rne (a / 2 powi (ulp_exp a)))"
    by (metis of_int_le_iff of_int_numeral of_int_power)
  then show ?thesis
    by (simp add: round_mag_def two_powi_add mult.commute)
qed

lemma round_mag_mono:
  assumes "0 < a" "a \<le> b"
  shows "round_mag a \<le> round_mag b"
proof -
  have b: "0 < b" using assms by linarith
  from ulp_exp_mono [OF assms] consider "ulp_exp a = ulp_exp b" | "ulp_exp a < ulp_exp b"
    by linarith
  then show ?thesis
  proof cases
    case 1
    have "a / 2 powi (ulp_exp b) \<le> b / 2 powi (ulp_exp b)"
      using assms(2) by (simp add: divide_right_mono)
    then have "rne (a / 2 powi (ulp_exp b)) \<le> rne (b / 2 powi (ulp_exp b))"
      by (rule rne_mono)
    then show ?thesis
      by (simp add: round_mag_def 1)
  next
    case 2
    then have "- 1022 \<le> ilog2 b" "ulp_exp a + 53 \<le> ulp_exp b + 52"
      by (simp_all add: ulp_exp_def max_def split: if_splits)
    from round_mag_ge_bottom [OF b this(1)] round_mag_le_top [OF assms(1)]
      two_powi_le [OF this(2)]
    show ?thesis by linarith
  qed
qed

lemma round_mag_exact:
  assumes "rat_of_int \<lfloor>v / 2 powi (ulp_exp v)\<rfloor> = v / 2 powi (ulp_exp v)"
  shows "round_mag v = v"
proof -
  define x where "x = v / 2 powi (ulp_exp v)"
  have x: "rat_of_int \<lfloor>x\<rfloor> = x" using assms by (simp only: x_def)
  have "rne x = \<lfloor>x\<rfloor>"
    using rne_of_int [of "\<lfloor>x\<rfloor>"] by (simp only: x)
  then have "round_mag v = x * 2 powi (ulp_exp v)"
    by (simp only: round_mag_def x_def [symmetric] x)
  then show ?thesis by (simp add: x_def)
qed

lemma ulp_exp_eqI:
  assumes "2 powi (e + 52) \<le> v" "v < 2 powi (e + 53)" "- 1074 \<le> e"
  shows "ulp_exp v = e"
proof -
  have "ilog2 v = e + 52"
    using assms(1,2) by (intro ilog2_unique) (simp_all add: add.commute add.left_commute)
  with assms(3) show ?thesis by (simp add: ulp_exp_def)
qed

lemma ulp_exp_subnormal:
  assumes "0 < v" "v < 2 powi (- 1021)"
  shows "ulp_exp v = - 1074"
proof -
  have "2 powi (ilog2 v) < (2::rat) powi (- 1021)"
    using ilog2_bounds(1) [OF assms(1)] assms(2) by linarith
  then have "ilog2 v < - 1021" by (simp only: two_powi_less_iff)
  then show ?thesis by (simp add: ulp_exp_def)
qed

lemma round_mag_grid:
  assumes "0 < a"
  shows "rat_of_int \<lfloor>round_mag a / 2 powi (ulp_exp (round_mag a))\<rfloor> =
         round_mag a / 2 powi (ulp_exp (round_mag a))"
proof -
  define e where "e = ulp_exp a"
  define m where "m = rne (a / 2 powi e)"
  define v where "v = round_mag a"
  have v: "v = rat_of_int m * 2 powi e"
    by (simp add: v_def m_def e_def round_mag_def)
  have e_ge: "- 1074 \<le> e" by (simp add: e_def ulp_exp_ge)
  have "0 \<le> v" by (simp add: v_def round_mag_nonneg assms less_imp_le)
  then have m0: "0 \<le> m"
    using two_powi_pos [of e] by (simp add: v zero_le_mult_iff not_le [symmetric])
  have "v \<le> 2 powi (e + 53)"
    using round_mag_le_top [OF assms] by (simp add: v_def e_def)
  then have "rat_of_int m * 2 powi e \<le> 2 ^ 53 * 2 powi e"
    by (simp add: v two_powi_add mult.commute)
  then have "rat_of_int m \<le> 2 ^ 53" by simp
  then have m53: "m \<le> 2 ^ 53"
    by (metis of_int_le_iff of_int_numeral of_int_power)
  consider "m = 0" | "m = 2 ^ 53" | "0 < m" "m < 2 ^ 53"
    using m0 m53 by linarith
  then have "rat_of_int \<lfloor>v / 2 powi (ulp_exp v)\<rfloor> = v / 2 powi (ulp_exp v)"
  proof cases
    case 1
    then show ?thesis by (simp add: v)
  next
    case 2
    then have v2: "v = 2 powi (e + 53)" by (simp add: v two_powi_add mult.commute)
    have "ulp_exp v = e + 1"
      using e_ge by (intro ulp_exp_eqI) (simp_all add: v2 two_powi_le_iff two_powi_less_iff)
    then have "v / 2 powi (ulp_exp v) = rat_of_int (2 ^ 52)"
      by (simp add: v2 flip: two_powi_diff)
    then show ?thesis by (simp only: floor_of_int)
  next
    case 3
    have lt: "v < 2 powi (e + 53)"
    proof -
      have "rat_of_int m < rat_of_int (2 ^ 53)" using 3(2) by (simp only: of_int_less_iff)
      then have "rat_of_int m * 2 powi e < 2 ^ 53 * 2 powi e" by simp
      then show ?thesis by (simp add: v two_powi_add mult.commute)
    qed
    have pos: "0 < v" using 3(1) by (simp add: v)
    have "ulp_exp v = e"
    proof (cases "- 1022 \<le> ilog2 a")
      case True
      have "2 powi (e + 52) \<le> v"
        using round_mag_ge_bottom [OF assms True] by (simp add: v_def e_def)
      then show ?thesis using lt e_ge by (intro ulp_exp_eqI)
    next
      case False
      then have e: "e = - 1074" by (simp add: e_def ulp_exp_def)
      with lt have "v < 2 powi (- 1021)" by simp
      from ulp_exp_subnormal [OF pos this] e show ?thesis by simp
    qed
    then have "v / 2 powi (ulp_exp v) = rat_of_int m" by (simp add: v)
    then show ?thesis by (simp only: floor_of_int)
  qed
  then show ?thesis by (simp add: v_def)
qed

lemma is_double_zero [simp]: "is_double 0"
  by (simp add: is_double_def)

lemma is_double_neg: "is_double (- v) = is_double v"
  by (simp add: is_double_def)

lemma rnd_is_double:
  assumes "rnd q = Fin v"
  shows "is_double v"
proof -
  consider "q = 0" | "0 < q" | "q < 0" by linarith
  then show ?thesis
  proof cases
    case 1
    with assms show ?thesis by simp
  next
    case 2
    with assms have v: "v = round_mag q" "v < 2 powi 1024"
      by (auto simp: rnd_pos split: if_splits)
    have "0 \<le> v" using 2 by (simp add: v(1) round_mag_nonneg)
    then have "\<bar>v\<bar> = v" by simp
    then show ?thesis
      using v(2) round_mag_grid [OF 2] by (simp add: is_double_def v(1))
  next
    case 3
    then have pos: "0 < - q" by simp
    from assms have "rnd (- q) = Fin (- v)" by (simp add: rnd_neg)
    with pos have v: "- v = round_mag (- q)" "- v < 2 powi 1024"
      by (auto simp: rnd_pos split: if_splits)
    have "0 \<le> - v" using pos by (simp only: v(1) round_mag_nonneg less_imp_le)
    then have "\<bar>- v\<bar> = - v" by simp
    then have "is_double (- v)"
      using v(2) round_mag_grid [OF pos] unfolding is_double_def by (simp only: v(1) [symmetric])
    then show ?thesis by (simp only: is_double_neg)
  qed
qed

lemma rnd_exact_pos:
  assumes "is_double v" "0 < v"
  shows "rnd v = Fin v"
proof -
  from assms have "round_mag v = v" "v < 2 powi 1024"
    by (simp_all add: is_double_def round_mag_exact)
  with assms(2) show ?thesis by (simp add: rnd_pos)
qed

lemma rnd_exact:
  assumes "is_double v"
  shows "rnd v = Fin v"
proof -
  consider "v = 0" | "0 < v" | "0 < - v" by linarith
  then show ?thesis
  proof cases
    case 1
    then show ?thesis by simp
  next
    case 2
    with assms show ?thesis by (rule rnd_exact_pos)
  next
    case 3
    from assms have "is_double (- v)" by (simp only: is_double_neg)
    from rnd_exact_pos [OF this 3] show ?thesis
      by (cases "rnd v") (simp_all add: rnd_neg)
  qed
qed

lemma rnd_idem: "rnd q = Fin v \<Longrightarrow> rnd v = Fin v"
  by (rule rnd_exact) (rule rnd_is_double)

lemma rnd_not_NaN [simp]: "rnd q \<noteq> NaN"
  by (simp add: rnd_def Let_def)

lemma rnd_mono_pos:
  assumes "0 < a" "a \<le> b"
  shows "fle (rnd a) (rnd b)"
proof -
  have b: "0 < b" using assms by linarith
  from round_mag_mono [OF assms] show ?thesis
    by (simp add: rnd_pos assms(1) b)
qed

lemma rnd_nonneg_cases:
  assumes "0 \<le> q"
  shows "rnd q = PInf \<or> (\<exists>v. rnd q = Fin v \<and> 0 \<le> v)"
proof (cases "q = 0")
  case True
  then show ?thesis by simp
next
  case False
  with assms have "0 < q" by simp
  then show ?thesis
    using round_mag_nonneg [of q] by (simp add: rnd_pos)
qed

lemma fle_fneg: "fle (fneg a) (fneg b) = fle b a"
  by (cases a; cases b) simp_all

lemma fle_zero_rnd: "0 \<le> q \<Longrightarrow> fle (Fin 0) (rnd q)"
  using rnd_nonneg_cases [of q] by auto

lemma fle_rnd_zero:
  assumes "q \<le> 0"
  shows "fle (rnd q) (Fin 0)"
proof -
  have "fle (Fin 0) (rnd (- q))" using assms by (intro fle_zero_rnd) simp
  then have "fle (fneg (Fin 0)) (fneg (rnd q))" by (simp add: rnd_neg)
  then show ?thesis by (simp only: fle_fneg)
qed

lemma fle_trans: "fle a b \<Longrightarrow> fle b c \<Longrightarrow> fle a c"
  by (cases a; cases b; cases c) simp_all

lemma rnd_mono:
  assumes "q \<le> r"
  shows "fle (rnd q) (rnd r)"
proof -
  consider "0 < q" | "q \<le> 0" "0 \<le> r" | "r < 0" by linarith
  then show ?thesis
  proof cases
    case 1
    then show ?thesis using assms by (rule rnd_mono_pos)
  next
    case 2
    from fle_rnd_zero [OF 2(1)] fle_zero_rnd [OF 2(2)] show ?thesis by (rule fle_trans)
  next
    case 3
    then have "0 < - r" "- r \<le> - q" using assms by simp_all
    then have "fle (rnd (- r)) (rnd (- q))" by (rule rnd_mono_pos)
    then show ?thesis by (simp add: rnd_neg fle_fneg)
  qed
qed

lemma rnd_overflow:
  assumes "2 powi 1024 \<le> a"
  shows "rnd a = PInf"
proof -
  have pos: "0 < a" using assms two_powi_pos [of 1024] by linarith
  have "(2::rat) powi 1024 < 2 powi (ilog2 a + 1)"
    using assms ilog2_bounds(2) [OF pos] by linarith
  then have "1024 < ilog2 a + 1" by (simp only: two_powi_less_iff)
  then have il: "1024 \<le> ilog2 a" by simp
  then have n: "- 1022 \<le> ilog2 a" by simp
  have "(2::rat) powi 1024 \<le> 2 powi (ulp_exp a + 52)"
    using il by (intro two_powi_le) (simp add: ulp_exp_def)
  with round_mag_ge_bottom [OF pos n] have "2 powi 1024 \<le> round_mag a" by linarith
  then show ?thesis by (simp add: rnd_pos pos)
qed

lemma is_double_scaled:
  assumes "\<bar>m\<bar> < 2 ^ 53" "- 1074 \<le> k" "k \<le> 971"
  shows "is_double (rat_of_int m * 2 powi k)"
proof (cases "m = 0")
  case True
  then show ?thesis by simp
next
  case False
  define v where "v = \<bar>rat_of_int m * 2 powi k\<bar>"
  have v: "v = rat_of_int \<bar>m\<bar> * 2 powi k"
    by (simp add: v_def abs_mult)
  have pos: "0 < v" using False by (simp add: v)
  have "rat_of_int \<bar>m\<bar> < rat_of_int (2 ^ 53)"
    using assms(1) by (simp only: of_int_less_iff)
  then have "rat_of_int \<bar>m\<bar> * 2 powi k < 2 ^ 53 * 2 powi k" by simp
  then have lt: "v < 2 powi (k + 53)" by (simp add: v two_powi_add mult.commute)
  have "2 powi (ilog2 v) < (2::rat) powi (k + 53)"
    using ilog2_bounds(1) [OF pos] lt by linarith
  then have "ilog2 v < k + 53" by (simp only: two_powi_less_iff)
  then have ek: "ulp_exp v \<le> k" using assms(2) by (simp add: ulp_exp_def)
  have "(2::rat) powi (k + 53) \<le> 2 powi 1024" using assms(3) by (intro two_powi_le) simp
  then have bound: "v < 2 powi 1024" using lt by linarith
  have "v / 2 powi (ulp_exp v) = rat_of_int \<bar>m\<bar> * 2 powi (k - ulp_exp v)"
    by (simp add: v two_powi_diff)
  also have "\<dots> = rat_of_int (\<bar>m\<bar> * 2 ^ nat (k - ulp_exp v))"
    using ek by (simp add: power_int_def)
  finally have "rat_of_int \<lfloor>v / 2 powi (ulp_exp v)\<rfloor> = v / 2 powi (ulp_exp v)"
    by (simp only: floor_of_int)
  with bound show ?thesis unfolding is_double_def v_def by simp
qed

lemma is_double_numeral: "(numeral n :: int) < 2 ^ 53 \<Longrightarrow> is_double (numeral n)"
  using is_double_scaled [of "numeral n" 0] by simp

lemma rnd_scaled:
  "\<bar>m\<bar> < 2 ^ 53 \<Longrightarrow> - 1074 \<le> k \<Longrightarrow> k \<le> 971 \<Longrightarrow>
   rnd (rat_of_int m * 2 powi k) = Fin (rat_of_int m * 2 powi k)"
  by (rule rnd_exact) (rule is_double_scaled)

lemma rnd_of_int:
  assumes "\<bar>m\<bar> < 2 ^ 53"
  shows "rnd (rat_of_int m) = Fin (rat_of_int m)"
  using rnd_scaled [OF assms, of 0] by simp

lemma rnd_numeral [simp]:
  "(numeral n :: int) < 2 ^ 53 \<Longrightarrow> rnd (numeral n) = Fin (numeral n)"
  using rnd_of_int [of "numeral n"] by simp

lemma rnd_neg_numeral [simp]:
  "(numeral n :: int) < 2 ^ 53 \<Longrightarrow> rnd (- numeral n) = Fin (- numeral n)"
  using rnd_of_int [of "- numeral n"] by simp

lemma rnd_one [simp]: "rnd 1 = Fin 1"
  using rnd_of_int [of 1] by simp

lemma rnd_neg_one [simp]: "rnd (- 1) = Fin (- 1)"
  using rnd_of_int [of "- 1"] by simp

section \<open>Properties of the float operations\<close>

lemma representable_rnd [simp]: "representable (rnd q)"
  by (cases "rnd q") (auto simp: representable_def dest: rnd_is_double)

lemma representable_fadd [simp]: "representable (fadd a b)"
  by (cases a; cases b) (simp_all add: representable_def [of PInf] representable_def [of NInf]
      representable_def [of NaN])

lemma representable_fsub [simp]: "representable (fsub a b)"
  by (simp add: fsub_def)

lemma fadd_zero_left: "representable t \<Longrightarrow> fadd (Fin 0) t = t"
  by (cases t) (simp_all add: representable_def rnd_exact)

lemma fadd_zero_right: "representable t \<Longrightarrow> fadd t (Fin 0) = t"
  by (cases t) (simp_all add: representable_def rnd_exact)

lemma fadd_commute: "fadd a b = fadd b a"
  by (cases a; cases b) (simp_all add: add.commute)

lemma fneg_fadd: "fadd (fneg a) (fneg b) = fneg (fadd a b)"
proof (cases a; cases b)
  fix x y assume "a = Fin x" "b = Fin y"
  then show ?thesis using rnd_neg [of "x + y"] by simp
qed simp_all

lemma fneg_fneg [simp]: "fneg (fneg a) = a"
  by (cases a) simp_all

lemma fabs_fneg [simp]: "fabs (fneg a) = fabs a"
  by (cases a) simp_all

lemma fsub_swap: "fsub b a = fneg (fsub a b)"
  by (simp add: fsub_def fadd_commute [of b] flip: fneg_fadd)

lemma fadd_fneg_self: "fadd t (fneg t) = (if is_finite t then Fin 0 else NaN)"
  by (cases t) (simp_all add: is_finite_def)

lemma fsub_self: "fsub t t = (if is_finite t then Fin 0 else NaN)"
  by (simp add: fsub_def fadd_fneg_self)

lemma two_600_overflow: "fmul (Fin (2 ^ 600)) (Fin (2 ^ 600)) = PInf"
proof -
  have "(2::rat) powi 1024 \<le> 2 powi 1200" by (rule two_powi_le) simp
  then have "rnd (2 powi 1200) = PInf" by (rule rnd_overflow)
  moreover have "(2::rat) ^ 600 * 2 ^ 600 = 2 powi 1200"
    by (simp add: power_int_def flip: power_add)
  ultimately show ?thesis by (simp only: fmul.simps)
qed

lemma is_double_two_600: "is_double (2 ^ 600)"
  using is_double_scaled [of 1 600] by (simp add: power_int_def)

lemma ulp_exp_at:
  assumes "2 powi e \<le> a" "a < 2 powi (e + 1)" "- 1022 \<le> e"
  shows "ulp_exp a = e - 52"
  using ilog2_unique [OF assms(1,2)] assms(3) by (simp add: ulp_exp_def)

lemma round_mag_at:
  assumes "2 powi e \<le> a" "a < 2 powi (e + 1)" "- 1022 \<le> e"
  shows "round_mag a = rat_of_int (rne (a / 2 powi (e - 52))) * 2 powi (e - 52)"
  by (simp only: round_mag_def ulp_exp_at [OF assms])

lemma rnd_2_53 [simp]: "rnd 9007199254740992 = Fin 9007199254740992"
  using rnd_scaled [of 1 53] by simp

lemma rnd_neg_2_53 [simp]: "rnd (- 9007199254740992) = Fin (- 9007199254740992)"
  using rnd_neg [of 9007199254740992] by simp

lemma rnd_2_53_plus_1 [simp]: "rnd 9007199254740993 = Fin 9007199254740992"
proof -
  have "round_mag 9007199254740993 =
        rat_of_int (rne (9007199254740993 / 2 powi (53 - 52))) * 2 powi (53 - 52)"
    by (rule round_mag_at) simp_all
  also have "\<dots> = 9007199254740992"
  proof -
    have "\<lfloor>9007199254740993 / 2 :: rat\<rfloor> = 4503599627370496"
      by (rule floor_unique) simp_all
    then show ?thesis by (simp add: rne_def Let_def)
  qed
  finally show ?thesis by (simp add: rnd_pos)
qed

lemma rnd_neg_2_53_plus_2 [simp]: "rnd (- 9007199254740994) = Fin (- 9007199254740994)"
  using rnd_scaled [of "- 4503599627370497" 1] by simp

lemma rnd_2_54: "rnd 18014398509481984 = Fin 18014398509481984"
  using rnd_scaled [of 1 54] by simp

lemma rnd_2_53_plus_2: "rnd 9007199254740994 = Fin 9007199254740994"
  using rnd_scaled [of 4503599627370497 1] by simp

lemma rnd_quarter: "rnd (1 / 4) = Fin (1 / 4)"
  using rnd_scaled [of 1 "- 2"] by (simp add: power_int_minus)

lemma is_double_thin_triangle:
  "is_double 9007199254740992 \<and> is_double 0 \<and> is_double 1 \<and> is_double (- 1) \<and>
   is_double (- (1 / 9007199254740992))"
  using is_double_scaled [of 1 53] is_double_scaled [of 1 0] is_double_scaled [of "- 1" 0]
    is_double_scaled [of "- 1" "- 53"]
  by (simp add: power_int_minus)

lemma nonneg_or_nan_rnd: "0 \<le> q \<Longrightarrow> nonneg_or_nan (rnd q)"
  using rnd_nonneg_cases [of q] rnd_is_double [of q]
  by (auto simp: nonneg_or_nan_def)

lemma nonneg_or_nan_half_abs: "nonneg_or_nan (fdiv (fabs x) (Fin 2))"
  by (cases x) (simp_all add: nonneg_or_nan_rnd signed_inf_def, simp_all add: nonneg_or_nan_def)

lemma nonneg_or_nan_cases:
  assumes "nonneg_or_nan d"
  obtains (fin) v where "d = Fin v" "0 \<le> v" "is_double v" | (inf) "d = PInf" | (nan) "d = NaN"
  using assms by (cases d) (auto simp: nonneg_or_nan_def)

lemma nonneg_or_nan_fadd:
  assumes "nonneg_or_nan a" "nonneg_or_nan b"
  shows "nonneg_or_nan (fadd a b)"
  using assms(1)
proof (cases rule: nonneg_or_nan_cases)
  case (fin x)
  from assms(2) show ?thesis
  proof (cases rule: nonneg_or_nan_cases)
    case (fin y) 
    with \<open>a = Fin x\<close> \<open>0 \<le> x\<close> show ?thesis by (simp add: nonneg_or_nan_rnd)
  qed (simp_all add: fin nonneg_or_nan_def)
next
  case inf
  from assms(2) show ?thesis
    by (cases rule: nonneg_or_nan_cases) (simp_all add: inf nonneg_or_nan_def)
next
  case nan
  then show ?thesis by (simp add: nonneg_or_nan_def)
qed

lemma is_double_grid:
  assumes "is_double v" "0 < v"
  shows "rat_of_int \<lfloor>v / 2 powi (ulp_exp v)\<rfloor> = v / 2 powi (ulp_exp v)" "v < 2 powi 1024"
  using assms by (simp_all add: is_double_def)

lemma grid_gap:
  assumes "is_double x" "is_double h" "0 < h" "h < x"
  shows "2 powi (ulp_exp h) \<le> x - h"
proof -
  have x: "0 < x" using assms(3,4) by linarith
  define eh where "eh = ulp_exp h"
  define ex where "ex = ulp_exp x"
  define kh where "kh = \<lfloor>h / 2 powi eh\<rfloor>"
  define kx where "kx = \<lfloor>x / 2 powi ex\<rfloor>"
  have le: "eh \<le> ex"
    unfolding eh_def ex_def using assms(3,4) by (intro ulp_exp_mono) simp_all
  have "rat_of_int kh = h / 2 powi eh"
    using is_double_grid(1) [OF assms(2,3)] by (simp only: kh_def eh_def)
  then have h: "h = rat_of_int kh * 2 powi eh" by simp
  have "rat_of_int kx = x / 2 powi ex"
    using is_double_grid(1) [OF assms(1) x] by (simp only: kx_def ex_def)
  then have "x = rat_of_int kx * 2 powi ex" by simp
  also have "2 powi ex = (2::rat) powi (ex - eh) * 2 powi eh"
    by (simp flip: two_powi_add)
  also have "(2::rat) powi (ex - eh) = rat_of_int (2 ^ nat (ex - eh))"
    using le by (simp add: power_int_def)
  finally have xk: "x = rat_of_int (kx * 2 ^ nat (ex - eh)) * 2 powi eh"
    by (simp add: mult.assoc)
  define K where "K = kx * 2 ^ nat (ex - eh) - kh"
  have diff: "x - h = rat_of_int K * 2 powi eh"
    unfolding K_def by (subst xk, subst h) (simp add: algebra_simps)
  have "0 < rat_of_int K * 2 powi eh" using assms(4) diff by linarith
  then have "0 < rat_of_int K"
    using two_powi_pos [of eh] by (simp add: zero_less_mult_iff not_less [symmetric] less_imp_le)
  then have "1 \<le> K" by simp
  then have "1 \<le> rat_of_int K" by simp
  then have "1 * 2 powi eh \<le> rat_of_int K * 2 powi eh"
    by (intro mult_right_mono) simp_all
  then show ?thesis by (simp add: diff eh_def)
qed

lemma ulp_exp_le_971:
  assumes "0 < h" "h < 2 powi 1024"
  shows "ulp_exp h \<le> 971"
proof -
  have "2 powi (ilog2 h) < (2::rat) powi 1024"
    using ilog2_bounds(1) [OF assms(1)] assms(2) by linarith
  then have "ilog2 h < 1024" by (simp only: two_powi_less_iff)
  then show ?thesis by (simp add: ulp_exp_def)
qed

lemma rnd_two_powi:
  assumes "- 1074 \<le> k" "k \<le> 971"
  shows "rnd (2 powi k) = Fin (2 powi k)"
  using rnd_scaled [of 1 k] assms by simp

lemma ratio_bound:
  assumes "is_double x" "is_double h" "0 < h" "h < x" "rnd (x - h) = Fin p"
  shows "0 < p \<and> h \<le> 2 ^ 53 * p"
proof -
  define g where "g = (2::rat) powi (ulp_exp h)"
  have g: "0 < g" by (simp add: g_def)
  have "rnd g = Fin g"
    unfolding g_def using ulp_exp_ge [of h] ulp_exp_le_971 [OF assms(3) is_double_grid(2) [OF assms(2,3)]]
    by (rule rnd_two_powi)
  moreover have "g \<le> x - h" unfolding g_def using assms(1-4) by (rule grid_gap)
  ultimately have gp: "g \<le> p" using rnd_mono [of g "x - h"] assms(5) by simp
  have "h < 2 powi (ulp_exp h + 53)" using assms(3) by (rule less_ulp_top)
  then have "h < 2 ^ 53 * g" by (simp add: g_def two_powi_add mult.commute)
  moreover have "2 ^ 53 * g \<le> 2 ^ 53 * p" using gp by simp
  ultimately show ?thesis using g gp by linarith
qed

lemma rnd_bounded:
  assumes "0 \<le> q" "q \<le> b" "rnd b = Fin b"
  shows "\<exists>c. rnd q = Fin c \<and> 0 \<le> c \<and> c \<le> b"
proof -
  from rnd_mono [OF assms(2)] assms(3) have le: "fle (rnd q) (Fin b)" by simp
  from rnd_nonneg_cases [OF assms(1)] show ?thesis
  proof
    assume "rnd q = PInf"
    with le show ?thesis by simp
  next
    assume "\<exists>v. rnd q = Fin v \<and> 0 \<le> v"
    with le show ?thesis by auto
  qed
qed

lemma rnd_2_60: "rnd (2 ^ 60) = Fin (2 ^ 60)"
  using rnd_two_powi [of 60] by (simp add: power_int_def)

lemma rnd_2_53_power: "rnd (2 ^ 53) = Fin (2 ^ 53)"
  using rnd_two_powi [of 53] by (simp add: power_int_def)

lemma percent_finite:
  assumes "0 \<le> h" "0 < p" "h \<le> 2 ^ 53 * p"
  shows "\<exists>d. fmul (fdiv (Fin h) (Fin p)) (Fin 100) = Fin d \<and> 0 \<le> d"
proof -
  have "0 \<le> h / p" "h / p \<le> 2 ^ 53"
    using assms by (simp_all add: pos_divide_le_eq)
  from rnd_bounded [OF this rnd_2_53_power] obtain c
    where c: "rnd (h / p) = Fin c" "0 \<le> c" "c \<le> 2 ^ 53" by blast
  have "c * 100 \<le> 2 ^ 53 * 128" using c(2,3) by (intro mult_mono) simp_all
  then have "0 \<le> c * 100" "c * 100 \<le> 2 ^ 60" using c(2) by simp_all
  from rnd_bounded [OF this rnd_2_60] obtain d where "rnd (c * 100) = Fin d" "0 \<le> d" by blast
  then show ?thesis using assms(2) c(1) by simp
qed

lemma percent_ok_iff:
  "percent_ok p d =
     ((d = NaN \<longleftrightarrow> p = NaN) \<and> \<not> flt d (Fin 0) \<and> d \<noteq> PInf \<and> d \<noteq> NInf)"
  by (cases d) (auto simp: percent_ok_def)

lemma percent_ok_number:
  "percent_ok p d \<Longrightarrow> p \<noteq> NaN \<Longrightarrow> fle (Fin 0) d \<and> is_finite d"
  by (cases d) (auto simp: percent_ok_def is_finite_def)

lemma percent_ok_finite:
  assumes "0 \<le> x" "is_double x" "0 \<le> h" "is_double h"
  shows "percent_ok (fsub (Fin x) (Fin h))
           (if fle (fsub (Fin x) (Fin h)) (Fin 0) then Fin 0
            else fmul (fdiv (Fin h) (fsub (Fin x) (Fin h))) (Fin 100))"
proof (cases "fle (fsub (Fin x) (Fin h)) (Fin 0)")
  case True
  then show ?thesis by (simp add: percent_ok_def fsub_def)
next
  case False
  have sub: "fsub (Fin x) (Fin h) = rnd (x - h)" by (simp add: fsub_def)
  have gt: "h < x"
  proof (rule ccontr)
    assume "\<not> h < x"
    then have "x - h \<le> 0" by simp
    from fle_rnd_zero [OF this] False sub show False by simp
  qed
  then have "0 \<le> x - h" by simp
  from rnd_nonneg_cases [OF this] consider "rnd (x - h) = PInf" | p where "rnd (x - h) = Fin p" "0 \<le> p"
    by blast
  then show ?thesis
  proof cases
    case 1
    then show ?thesis using False by (simp add: sub percent_ok_def)
  next
    case 2
    show ?thesis
    proof (cases "h = 0")
      case True
      from 2 False show ?thesis unfolding sub by (simp add: True percent_ok_def)
    next
      case hpos: False
      with assms(3) have "0 < h" by simp
      from ratio_bound [OF assms(2,4) this gt 2(1)] have "0 < p" "h \<le> 2 ^ 53 * p" by simp_all
      from percent_finite [OF assms(3) this] obtain d
        where "fmul (fdiv (Fin h) (Fin p)) (Fin 100) = Fin d" "0 \<le> d" by blast
      then show ?thesis using False by (simp add: sub 2(1) percent_ok_def)
    qed
  qed
qed

lemma percent_ok_areas:
  assumes "nonneg_or_nan outer_area" "nonneg_or_nan hole_area"
  shows "percent_ok (fsub outer_area hole_area)
           (if fle (fsub outer_area hole_area) (Fin 0) then Fin 0
            else fmul (fdiv hole_area (fsub outer_area hole_area)) (Fin 100))"
  using assms(1)
proof (cases rule: nonneg_or_nan_cases)
  case xf: (fin x)
  from assms(2) show ?thesis
  proof (cases rule: nonneg_or_nan_cases)
    case (fin h)
    from percent_ok_finite [OF xf(2,3) fin(2,3)] show ?thesis
      unfolding xf(1) fin(1) .
  next
    case inf
    with xf show ?thesis by (simp add: fsub_def percent_ok_def)
  next
    case nan
    with xf show ?thesis by (simp add: fsub_def percent_ok_def)
  qed
next
  case xi: inf
  from assms(2) show ?thesis
  proof (cases rule: nonneg_or_nan_cases)
    case (fin h)
    with xi show ?thesis by (simp add: fsub_def percent_ok_def)
  next
    case inf
    with xi show ?thesis by (simp add: fsub_def percent_ok_def)
  next
    case nan
    with xi show ?thesis by (simp add: fsub_def percent_ok_def)
  qed
next
  case xn: nan
  then show ?thesis by (cases hole_area) (simp_all add: fsub_def percent_ok_def)
qed

lemma fsub_not_nan:
  assumes "is_finite a" "nonneg_or_nan b" "b \<noteq> NaN"
  shows "fsub a b \<noteq> NaN"
  using assms by (cases a; cases b) (simp_all add: is_finite_def nonneg_or_nan_def fsub_def)

lemma rne_nearest:
  assumes "rat_of_int m - 1 / 2 < x" "x < rat_of_int m + 1 / 2"
  shows "rne x = m"
proof -
  from rne_bounds [of x] assms
  have "rat_of_int (rne x) < rat_of_int m + 1" "rat_of_int m < rat_of_int (rne x) + 1"
    by linarith+
  then have "rat_of_int (rne x) < rat_of_int (m + 1)" "rat_of_int m < rat_of_int (rne x + 1)"
    by simp_all
  then have "rne x < m + 1" "m < rne x + 1" by (simp_all only: of_int_less_iff)
  then show ?thesis by linarith
qed

lemma rnd_nearest:
  assumes "2 powi e \<le> a" "a < 2 powi (e + 1)" "- 1022 \<le> e" "e \<le> 1023"
    and "rat_of_int m - 1 / 2 < a / 2 powi (e - 52)" "a / 2 powi (e - 52) < rat_of_int m + 1 / 2"
    and "m < 2 ^ 53"
  shows "rnd a = Fin (rat_of_int m * 2 powi (e - 52))"
proof -
  have pos: "0 < a" using assms(1) two_powi_pos [of e] by linarith
  have mag: "round_mag a = rat_of_int m * 2 powi (e - 52)"
    by (simp only: round_mag_at [OF assms(1-3)] rne_nearest [OF assms(5,6)])
  have "rat_of_int m < rat_of_int (2 ^ 53)" using assms(7) by (simp only: of_int_less_iff)
  then have "rat_of_int m * 2 powi (e - 52) < 2 ^ 53 * 2 powi (e - 52)" by simp
  also have "\<dots> = 2 powi (e + 1)" by (simp add: power_int_diff power_int_add)
  also have "\<dots> \<le> 2 powi 1024" using assms(4) by (intro two_powi_le) simp
  finally have "\<not> 2 powi 1024 \<le> round_mag a" by (simp only: mag not_le)
  then show ?thesis by (simp only: rnd_pos [OF pos] mag if_False)
qed

lemma rnd_one_24th: "rnd (1 / 24) = Fin (6004799503160661 / 144115188075855872)"
  using rnd_nearest [of "- 5" "1 / 24" 6004799503160661]
  by (simp add: power_int_minus)

lemma rnd_percent: "rnd (6004799503160661 * 100 / 144115188075855872) =
    Fin (2345624805922133 / 562949953421312)"
  using rnd_nearest [of 2 "6004799503160661 * 100 / 144115188075855872" 4691249611844266]
  by (simp add: power_int_minus)

section \<open>Properties of the ring area calculator\<close>

lemma ring_area_loop_foldl:
  "ring_area_loop coords idxs area = foldl fadd area (map (shoelace_term coords) idxs)"
  by (induction idxs arbitrary: area) simp_all

lemma upt_3: "[0..<3] = [0, 1, 2]" and upt_2: "[0..<2] = [0, 1]" and upt_4: "[0..<4] = [0, 1, 2, 3]"
  by (simp_all add: upt_rec)

lemma ring_area_one:
  "ring_area [(x, y)] = (if is_finite (fmul x y) then Fin 0 else NaN)"
  by (simp add: ring_area_def shoelace_term_def fsub_self is_finite_def split: double.splits)

lemma ring_area_two:
  "ring_area [(x0, y0), (x1, y1)] =
     (if is_finite (fsub (fmul x0 y1) (fmul x1 y0)) then Fin 0 else NaN)"
proof -
  define t where "t = fsub (fmul x0 y1) (fmul x1 y0)"
  have t1: "fsub (fmul x1 y0) (fmul x0 y1) = fneg t"
    unfolding t_def by (rule fsub_swap)
  have r: "representable t" by (simp add: t_def)
  have "ring_area [(x0, y0), (x1, y1)] = fdiv (fabs (fadd (fadd (Fin 0) t) (fneg t))) (Fin 2)"
    by (simp add: ring_area_def upt_2 shoelace_term_def t1 flip: t_def)
  also have "\<dots> = fdiv (fabs (if is_finite t then Fin 0 else NaN)) (Fin 2)"
    by (simp only: fadd_zero_left [OF r] fadd_fneg_self)
  also have "\<dots> = (if is_finite t then Fin 0 else NaN)"
    by simp
  finally show ?thesis by (simp only: t_def)
qed

text \<open>
  Claim C9, as stated, fails: with the finite vertex \<open>(2\<^sup>6\<^sup>0\<^sup>0, 2\<^sup>6\<^sup>0\<^sup>0)\<close> the product
  \<^verbatim>\<open>x * y\<close> overflows to \<^verbatim>\<open>inf\<close>, the term is \<^verbatim>\<open>inf - inf\<close>, and the area of the
  one-vertex ring is NaN, not \<^verbatim>\<open>0.0\<close>; likewise for the two-vertex ring
  \<open>[(2\<^sup>6\<^sup>0\<^sup>0, 0), (0, 2\<^sup>6\<^sup>0\<^sup>0)]\<close>, whose two terms are \<^verbatim>\<open>inf\<close> and \<^verbatim>\<open>-inf\<close>.
\<close>

theorem short_ring_area_overflow:
  "is_double (2 ^ 600) \<and>
   ring_area [(Fin (2 ^ 600), Fin (2 ^ 600))] = NaN \<and>
   ring_area [(Fin (2 ^ 600), Fin 0), (Fin 0, Fin (2 ^ 600))] = NaN"
proof -
  have "fsub (fmul (Fin (2 ^ 600)) (Fin (2 ^ 600))) (fmul (Fin 0) (Fin 0)) = PInf"
    by (simp only: two_600_overflow) (simp add: fsub_def)
  then show ?thesis
    by (simp only: is_double_two_600 ring_area_one ring_area_two two_600_overflow)
       (simp add: is_finite_def)
qed

text \<open>
  Claim C9, amended. The area of a ring of one vertex \<open>(x, y)\<close> is exactly \<^verbatim>\<open>0.0\<close> when
  the product \<^verbatim>\<open>x * y\<close> is finite, and NaN otherwise. The area of a ring of two vertices
  is exactly \<^verbatim>\<open>0.0\<close> when the term \<^verbatim>\<open>x0 * y1 - x1 * y0\<close> is finite (the second term is
  its exact negation), and NaN otherwise.
\<close>

theorem short_ring_area:
  "ring_area [(x, y)] = (if is_finite (fmul x y) then Fin 0 else NaN) \<and>
   ring_area [(x0, y0), (x1, y1)] =
     (if is_finite (fsub (fmul x0 y1) (fmul x1 y0)) then Fin 0 else NaN)"
  by (simp only: ring_area_one ring_area_two)

lemma nonneg_or_nan_ring_area: "nonneg_or_nan (ring_area coords)"
  by (simp add: ring_area_def nonneg_or_nan_half_abs) (simp add: nonneg_or_nan_def)

lemma ring_area_overflow_nan: "ring_area [(Fin (2 ^ 600), Fin (2 ^ 600))] = NaN"
  by (simp only: ring_area_one two_600_overflow is_finite_def double.case if_False)

lemma ring_area_square: "ring_area square = Fin 16" "ring_area (rev square) = Fin 16"
  by (simp_all add: ring_area_def square_def upt_4 shoelace_term_def fsub_def)

lemma py_ring_area_int_square:
  "py_ring_area int_square = Inr (Fin 16)"
  "py_ring_area int_square_reversed = Inr (Fin 16)"
  by (simp_all add: py_ring_area_def int_square_def int_square_reversed_def int_vertex_def upt_4
      py_shoelace_term_def py_vertex_def py_unpack2_def py_mul_def py_sub_def float_iadd_def
      float_op_def int_to_float_def truediv_def)

lemma ring_area_never_negative: "ring_area coords = NaN \<or> fle (Fin 0) (ring_area coords)"
  using nonneg_or_nan_ring_area [of coords]
  by (cases rule: nonneg_or_nan_cases) simp_all

text \<open>
  Claim C3, as stated, fails in its last part: the area of the one-vertex ring
  \<open>[(2\<^sup>6\<^sup>0\<^sup>0, 2\<^sup>6\<^sup>0\<^sup>0)]\<close> is NaN, and \<^verbatim>\<open>0.0 <= nan\<close> is false.
\<close>

theorem ring_area_not_nonnegative:
  "is_double (2 ^ 600) \<and> \<not> fle (Fin 0) (ring_area [(Fin (2 ^ 600), Fin (2 ^ 600))])"
  by (simp only: is_double_two_600 ring_area_overflow_nan) simp

text \<open>
  Claim C3, amended. \<^verbatim>\<open>ring_area\<close> returns exactly \<^verbatim>\<open>0.0\<close> on the empty ring. On a ring
  with a vertex it returns the absolute value, divided by 2, of the sum (added from left
  to right, starting from \<^verbatim>\<open>0.0\<close>) of the terms \<open>x\<^sub>i * y\<^sub>i\<^sub>+\<^sub>1 - x\<^sub>i\<^sub>+\<^sub>1 * y\<^sub>i\<close> over all
  indices, the successor of the last index being the first. On the square
  \<open>[(0,0), (4,0), (4,4), (0,4)]\<close> it returns \<^verbatim>\<open>16.0\<close> in both orientations, with float
  and with integer coordinates. The result is never negative: it is NaN (when the sum
  has overflowed to NaN) or it is \<open>\<ge> 0\<close>.
\<close>

theorem ring_area_shoelace:
  "ring_area [] = Fin 0 \<and>
   ring_area (v # vs) =
     fdiv (fabs (foldl fadd (Fin 0)
       (map (shoelace_term (v # vs)) [0..<length (v # vs)]))) (Fin 2) \<and>
   shoelace_term coords i =
     fsub (fmul (fst (coords ! i)) (snd (coords ! ((i + 1) mod length coords))))
          (fmul (fst (coords ! ((i + 1) mod length coords))) (snd (coords ! i))) \<and>
   ring_area square = Fin 16 \<and>
   ring_area (rev square) = Fin 16 \<and>
   py_ring_area int_square = Inr (Fin 16) \<and>
   py_ring_area int_square_reversed = Inr (Fin 16) \<and>
   (ring_area coords = NaN \<or> fle (Fin 0) (ring_area coords))"
proof -
  have "ring_area (v # vs) =
     fdiv (fabs (foldl fadd (Fin 0)
       (map (shoelace_term (v # vs)) [0..<length (v # vs)]))) (Fin 2)"
    by (simp only: ring_area_def ring_area_loop_foldl) simp
  moreover have "shoelace_term coords i =
     fsub (fmul (fst (coords ! i)) (snd (coords ! ((i + 1) mod length coords))))
          (fmul (fst (coords ! ((i + 1) mod length coords))) (snd (coords ! i)))"
    by (simp add: shoelace_term_def split: prod.splits)
  moreover have "ring_area [] = Fin 0" by (simp add: ring_area_def)
  ultimately show ?thesis
    using ring_area_square py_ring_area_int_square ring_area_never_negative by blast
qed

lemma ring_area_thin_triangle:
  "ring_area thin_triangle = Fin 4503599627370496"
  "ring_area (rev thin_triangle) = Fin 4503599627370497"
  by (simp_all add: ring_area_def thin_triangle_def upt_4 shoelace_term_def fsub_def)

text \<open>
  Claim C5, as stated, fails: float addition is not associative, and reversing a ring of
  four or more vertices changes the order in which the terms are added. The closed ring
  \<open>thin_triangle\<close> has the area \<open>2\<^sup>5\<^sup>2\<close>, and the same ring reversed the area \<open>2\<^sup>5\<^sup>2 + 1\<close>.
\<close>

theorem reversal_changes_area:
  "is_double 9007199254740992 \<and> is_double 0 \<and> is_double 1 \<and> is_double (- 1) \<and>
   is_double (- (1 / 9007199254740992)) \<and>
   ring_area thin_triangle = Fin 4503599627370496 \<and>
   ring_area (rev thin_triangle) = Fin 4503599627370497 \<and>
   ring_area (rev thin_triangle) \<noteq> ring_area thin_triangle"
  using is_double_thin_triangle by (simp add: ring_area_thin_triangle)

lemma ring_area_three:
  "ring_area [(x0, y0), (x1, y1), (x2, y2)] =
     fdiv (fabs (fadd (fadd (fsub (fmul x0 y1) (fmul x1 y0)) (fsub (fmul x1 y2) (fmul x2 y1)))
                      (fsub (fmul x2 y0) (fmul x0 y2)))) (Fin 2)"
  by (simp add: ring_area_def upt_3 shoelace_term_def fadd_zero_left)

lemma ring_area_two_swap:
  "ring_area [(x1, y1), (x0, y0)] = ring_area [(x0, y0), (x1, y1)]"
proof -
  have "is_finite (fneg t) = is_finite t" for t
    by (cases t) (simp_all add: is_finite_def)
  then show ?thesis
    by (simp add: ring_area_two fsub_swap [of "fmul x1 y0" "fmul x0 y1"])
qed

lemma ring_area_three_rev:
  "ring_area [(x2, y2), (x1, y1), (x0, y0)] = ring_area [(x0, y0), (x1, y1), (x2, y2)]"
proof -
  define a where "a = fsub (fmul x0 y1) (fmul x1 y0)"
  define b where "b = fsub (fmul x1 y2) (fmul x2 y1)"
  define c where "c = fsub (fmul x2 y0) (fmul x0 y2)"
  have swaps: "fsub (fmul x2 y1) (fmul x1 y2) = fneg b"
    "fsub (fmul x1 y0) (fmul x0 y1) = fneg a"
    "fsub (fmul x0 y2) (fmul x2 y0) = fneg c"
    by (simp_all add: a_def b_def c_def fsub_swap [symmetric])
  have "fadd (fadd (fneg b) (fneg a)) (fneg c) = fneg (fadd (fadd a b) c)"
    by (simp only: fneg_fadd fadd_commute [of b a])
  then show ?thesis
    by (simp only: ring_area_three swaps fabs_fneg flip: a_def b_def c_def)
qed

text \<open>
  Claim C5, amended. For a ring of at most three vertices \<^verbatim>\<open>ring_area\<close> returns the same
  value on the ring and on the ring with its vertex order reversed: the terms of the
  reversed ring are the exact negations of the terms of the ring, and up to three terms
  are added in an order that float addition does not distinguish.
\<close>

theorem reversal_short_ring:
  assumes "length coords \<le> 3"
  shows "ring_area (rev coords) = ring_area coords"
proof -
  obtain n where "length coords = n" by simp
  with assms consider "coords = []" | v where "coords = [v]" | v w where "coords = [v, w]"
    | u v w where "coords = [u, v, w]"
    by (cases coords; cases "tl coords"; cases "tl (tl coords)"; cases "tl (tl (tl coords))")
       auto
  then show ?thesis
  proof cases
    case 1
    then show ?thesis by simp
  next
    case 2
    then show ?thesis by simp
  next
    case 3
    then show ?thesis
      by (cases v; cases w) (simp add: ring_area_two_swap)
  next
    case 4
    then show ?thesis
      by (cases u; cases v; cases w) (simp add: ring_area_three_rev)
  qed
qed

text \<open>
  An instance: the triangle \<open>(0,0), (4,0), (0,3)\<close> has three vertices, and its area is
  \<^verbatim>\<open>6.0\<close> in both orientations.
\<close>

theorem reversal_short_ring_witness:
  "length [(Fin 0, Fin 0), (Fin 4, Fin 0), (Fin 0, Fin 3)] \<le> 3 \<and>
   ring_area (rev [(Fin 0, Fin 0), (Fin 4, Fin 0), (Fin 0, Fin 3)]) =
   ring_area [(Fin 0, Fin 0), (Fin 4, Fin 0), (Fin 0, Fin 3)] \<and>
   ring_area [(Fin 0, Fin 0), (Fin 4, Fin 0), (Fin 0, Fin 3)] = Fin 6"
proof -
  have "ring_area [(Fin 0, Fin 0), (Fin 4, Fin 0), (Fin 0, Fin 3)] = Fin 6"
    by (simp add: ring_area_three fsub_def)
  with reversal_short_ring [of "[(Fin 0, Fin 0), (Fin 4, Fin 0), (Fin 0, Fin 3)]"]
  show ?thesis by simp
qed

section \<open>Properties of the builtin sum\<close>

text \<open>
  A sum of areas, none of which is negative, is not negative under either algorithm
  (it may be infinite or NaN). For the compensated sum this rests on an exactness
  property of float addition: for floats \<open>a \<ge> b \<ge> 0\<close> and \<open>t\<close> the rounded sum of the two,
  \<open>a - t\<close> is a float again (\<open>a\<close> and \<open>t\<close> are multiples of the unit in the last place of
  \<open>a\<close>, and \<open>t - a \<le> a\<close>), so that the compensation never falls below \<open>-t\<close>. When every
  partial sum of the items is a float, nothing is rounded and both algorithms return
  the exact sum.
\<close>

lemma is_double_on_grid:
  assumes "q = rat_of_int n * 2 powi g" "- 1074 \<le> g" "\<bar>q\<bar> < 2 powi (g + 53)" "\<bar>q\<bar> < 2 powi 1024"
  shows "is_double q"
proof (cases "q = 0")
  case True
  then show ?thesis by simp
next
  case False
  define v where "v = \<bar>q\<bar>"
  have v: "v = rat_of_int \<bar>n\<bar> * 2 powi g"
    by (simp add: v_def assms(1) abs_mult)
  have pos: "0 < v" using False by (simp add: v_def)
  have "2 powi (ilog2 v) < (2::rat) powi (g + 53)"
    using ilog2_bounds(1) [OF pos] assms(3) by (simp add: v_def)
  then have "ilog2 v < g + 53" by (simp only: two_powi_less_iff)
  then have ek: "ulp_exp v \<le> g" using assms(2) by (simp add: ulp_exp_def)
  have "v / 2 powi (ulp_exp v) = rat_of_int \<bar>n\<bar> * 2 powi (g - ulp_exp v)"
    by (simp add: v two_powi_diff)
  also have "\<dots> = rat_of_int (\<bar>n\<bar> * 2 ^ nat (g - ulp_exp v))"
    using ek by (simp add: power_int_def)
  finally have "rat_of_int \<lfloor>v / 2 powi (ulp_exp v)\<rfloor> = v / 2 powi (ulp_exp v)"
    by (simp only: floor_of_int)
  with assms(4) show ?thesis unfolding is_double_def v_def by simp
qed

lemma double_on_grid:
  assumes "is_double v" "0 < v" "g \<le> ulp_exp v"
  shows "\<exists>n. v = rat_of_int n * 2 powi g"
proof -
  define k where "k = \<lfloor>v / 2 powi (ulp_exp v)\<rfloor>"
  have "v / 2 powi (ulp_exp v) = rat_of_int k"
    unfolding k_def by (simp only: is_double_grid(1) [OF assms(1,2)])
  then have "v = rat_of_int k * 2 powi (ulp_exp v)" by (simp add: field_simps)
  also have "2 powi (ulp_exp v) = (2::rat) powi (ulp_exp v - g) * 2 powi g"
    by (simp flip: two_powi_add)
  also have "(2::rat) powi (ulp_exp v - g) = rat_of_int (2 ^ nat (ulp_exp v - g))"
    using assms(3) by (simp add: power_int_def)
  finally have "v = rat_of_int (k * 2 ^ nat (ulp_exp v - g)) * 2 powi g"
    by (simp only: of_int_mult mult.assoc)
  then show ?thesis by blast
qed

lemma is_double_twice:
  assumes "is_double a" "0 < a" "2 * a < 2 powi 1024"
  shows "is_double (2 * a)"
proof -
  from double_on_grid [OF assms(1,2) order_refl] obtain n
    where n: "a = rat_of_int n * 2 powi (ulp_exp a)" by blast
  have "2 * a = rat_of_int n * 2 powi (ulp_exp a + 1)"
    by (subst n) (simp add: two_powi_Suc)
  moreover have "- 1074 \<le> ulp_exp a + 1" using ulp_exp_ge [of a] by simp
  moreover have "\<bar>2 * a\<bar> < 2 powi (ulp_exp a + 1 + 53)"
  proof -
    have "(2::rat) powi (ulp_exp a + 1 + 53) = 2 * 2 powi (ulp_exp a + 53)"
      using two_powi_Suc [of "ulp_exp a + 53"] by (simp add: add.commute add.left_commute)
    then show ?thesis using less_ulp_top [OF assms(2)] assms(2) by simp
  qed
  moreover have "\<bar>2 * a\<bar> < 2 powi 1024" using assms(2,3) by simp
  ultimately show ?thesis by (rule is_double_on_grid)
qed

lemma fadd_exact_difference:
  assumes "is_double a" "is_double b" "0 \<le> b" "b \<le> a" "rnd (a + b) = Fin t"
  shows "a \<le> t" "is_double (a - t)"
proof -
  have ab: "a \<le> a + b" using assms(3) by simp
  from rnd_mono [OF this] rnd_exact [OF assms(1)] assms(5) show le: "a \<le> t" by simp
  have dt: "is_double t" using assms(5) by (rule rnd_is_double)
  show "is_double (a - t)"
  proof (cases "a = 0")
    case True
    with assms have "b = 0" by simp
    with True assms(5) show ?thesis by simp
  next
    case False
    with assms(3,4) have pos: "0 < a" by simp
    then have tpos: "0 < t" using le by simp
    have t2: "t \<le> 2 * a"
    proof (cases "2 * a < 2 powi 1024")
      case True
      have "a + b \<le> 2 * a" using assms(4) by simp
      from rnd_mono [OF this] rnd_exact [OF is_double_twice [OF assms(1) pos True]] assms(5)
      show ?thesis by simp
    next
      case False
      with is_double_grid(2) [OF dt tpos] show ?thesis by simp
    qed
    from double_on_grid [OF assms(1) pos order_refl] obtain n
      where n: "a = rat_of_int n * 2 powi (ulp_exp a)" by blast
    from double_on_grid [OF dt tpos ulp_exp_mono [OF pos le]] obtain m
      where m: "t = rat_of_int m * 2 powi (ulp_exp a)" by blast
    have "a - t = rat_of_int (n - m) * 2 powi (ulp_exp a)"
      by (subst n, subst m) (simp add: algebra_simps)
    moreover have "- 1074 \<le> ulp_exp a" by (rule ulp_exp_ge)
    moreover have "\<bar>a - t\<bar> \<le> a" using le t2 by simp
    then have "\<bar>a - t\<bar> < 2 powi (ulp_exp a + 53)" using less_ulp_top [OF pos] by simp
    moreover have "\<bar>a - t\<bar> < 2 powi 1024"
      using \<open>\<bar>a - t\<bar> \<le> a\<close> is_double_grid(2) [OF assms(1) pos] by simp
    ultimately show ?thesis by (rule is_double_on_grid)
  qed
qed


lemma fle_Fin_cases:
  assumes "fle (Fin a) d"
  obtains (inf) "d = PInf" | (fin) c where "d = Fin c" "a \<le> c"
  using assms by (cases d) auto

lemma compensation_bound:
  assumes "is_double a" "is_double b" "0 \<le> b" "b \<le> a" "rnd (a + b) = Fin t"
    and "- f \<le> c" "f \<le> a"
  shows "fle (Fin (- t)) (fadd (Fin c) (fadd (fsub (Fin a) (Fin t)) (Fin b)))"
proof -
  note ex = fadd_exact_difference [OF assms(1-5)]
  have sub: "fsub (Fin a) (Fin t) = Fin (a - t)"
    using rnd_exact [OF ex(2)] by (simp add: fsub_def)
  have "a - t \<le> a - t + b" using assms(3) by simp
  from rnd_mono [OF this] have "fle (Fin (a - t)) (fadd (Fin (a - t)) (Fin b))"
    by (simp add: rnd_exact [OF ex(2)])
  then show ?thesis
  proof (cases rule: fle_Fin_cases)
    case inf
    then show ?thesis by (simp add: sub)
  next
    case (fin d)
    have dt: "is_double (- t)"
      using rnd_is_double [OF assms(5)] by (simp add: is_double_neg)
    have "- t \<le> c + d" using fin(2) assms(6,7) by simp
    from rnd_mono [OF this] have "fle (Fin (- t)) (fadd (Fin c) (Fin d))"
      by (simp add: rnd_exact [OF dt])
    then show ?thesis by (simp only: sub fin(1))
  qed
qed

lemma fadd_not_finite: "\<not> is_finite lo \<Longrightarrow> \<not> is_finite (fadd lo d)"
  by (cases lo; cases d) (simp_all add: is_finite_def)

lemma cs_add_form: "\<exists>d. cs_add (hi, lo) x = (fadd hi x, fadd lo d)"
  by (cases "fle (fabs x) (fabs hi)") (auto simp: cs_add_def Let_def)

lemma cs_nonneg_not_finite:
  "0 \<le> t \<Longrightarrow> is_double t \<Longrightarrow> \<not> is_finite lo \<Longrightarrow> cs_nonneg (Fin t, lo)"
  by (cases lo) (simp_all add: cs_nonneg_def is_finite_def)

lemma cs_nonneg_add:
  assumes "cs_nonneg cs" "nonneg_or_nan x"
  shows "cs_nonneg (cs_add cs x)"
proof -
  obtain hi lo where cs: "cs = (hi, lo)" by (cases cs)
  from assms(2) show ?thesis
  proof (cases rule: nonneg_or_nan_cases)
    case (fin v)
    show ?thesis
    proof (cases hi)
      case (Fin f)
      with assms(1) cs have f: "0 \<le> f" "is_double f" by (simp_all add: cs_nonneg_def)
      have "0 \<le> f + v" using f(1) fin(2) by simp
      from rnd_nonneg_cases [OF this] show ?thesis
      proof
        assume "rnd (f + v) = PInf"
        then show ?thesis by (simp add: cs Fin fin(1) cs_add_def cs_nonneg_def Let_def)
      next
        assume "\<exists>t. rnd (f + v) = Fin t \<and> 0 \<le> t"
        then obtain t where t: "rnd (f + v) = Fin t" "0 \<le> t" by blast
        have dt: "is_double t" using t(1) by (rule rnd_is_double)
        have nf: "cs_nonneg (cs_add cs x)" if "\<not> is_finite lo"
        proof -
          from cs_add_form [of hi lo x] obtain d
            where "cs_add cs x = (fadd hi x, fadd lo d)" unfolding cs by blast
          then have "cs_add cs x = (Fin t, fadd lo d)"
            using t(1) by (simp add: Fin fin(1))
          with cs_nonneg_not_finite [OF t(2) dt fadd_not_finite [OF that]] show ?thesis
            by simp
        qed
        show ?thesis
        proof (cases lo)
          case lo: (Fin c)
          with assms(1) cs Fin have c: "- f \<le> c" by (simp add: cs_nonneg_def)
          show ?thesis
          proof (cases "v \<le> f")
            case True
            from compensation_bound [OF f(2) fin(3,2) True t(1) c order_refl]
            show ?thesis
              using True t dt
              by (cases rule: fle_Fin_cases)
                (simp_all add: cs Fin fin(1) lo cs_add_def cs_nonneg_def Let_def abs_of_nonneg f(1) fin(2))
          next
            case False
            then have le: "f \<le> v" by simp
            have t': "rnd (v + f) = Fin t" using t(1) by (simp add: add.commute)
            from compensation_bound [OF fin(3) f(2,1) le t' c le]
            show ?thesis
              using False t dt
              by (cases rule: fle_Fin_cases)
                (simp_all add: cs Fin fin(1) lo cs_add_def cs_nonneg_def Let_def abs_of_nonneg f(1) fin(2))
          qed
        qed (use nf in \<open>simp_all add: is_finite_def\<close>)
      qed
    next
      case PInf
      then show ?thesis by (simp add: cs fin(1) cs_add_def cs_nonneg_def Let_def)
    next
      case NInf
      with assms(1) cs show ?thesis by (simp add: cs_nonneg_def)
    next
      case NaN
      then show ?thesis by (simp add: cs fin(1) cs_add_def cs_nonneg_def Let_def)
    qed
  next
    case inf
    with assms(1) show ?thesis
      by (cases hi) (simp_all add: cs cs_add_def cs_nonneg_def Let_def)
  next
    case nan
    with assms(1) show ?thesis
      by (cases hi) (simp_all add: cs cs_add_def cs_nonneg_def Let_def)
  qed
qed

lemma cs_nonneg_sum_from:
  "cs_nonneg cs \<Longrightarrow> \<forall>x \<in> set xs. nonneg_or_nan x \<Longrightarrow> cs_nonneg (cs_sum_from cs xs)"
  by (induction xs arbitrary: cs) (simp_all add: cs_nonneg_add)

lemma nonneg_or_nan_cs_to_double:
  assumes "cs_nonneg cs"
  shows "nonneg_or_nan (cs_to_double cs)"
proof -
  obtain hi lo where cs: "cs = (hi, lo)" by (cases cs)
  show ?thesis
  proof (cases hi)
    case (Fin f)
    with assms cs have f: "0 \<le> f" "is_double f" by (simp_all add: cs_nonneg_def)
    show ?thesis
    proof (cases lo)
      case lo: (Fin c)
      with assms cs Fin have "0 \<le> f + c" by (simp add: cs_nonneg_def)
      from nonneg_or_nan_rnd [OF this] f show ?thesis
        by (simp add: cs Fin lo cs_to_double_def is_finite_def nonneg_or_nan_def)
    qed (use f in \<open>simp_all add: cs Fin cs_to_double_def is_finite_def nonneg_or_nan_def\<close>)
  next
    case PInf
    then show ?thesis
      by (cases lo) (simp_all add: cs cs_to_double_def is_finite_def nonneg_or_nan_def)
  next
    case NInf
    with assms cs show ?thesis by (simp add: cs_nonneg_def)
  next
    case NaN
    then show ?thesis
      by (cases lo) (simp_all add: cs cs_to_double_def is_finite_def nonneg_or_nan_def)
  qed
qed

lemma nonneg_or_nan_py_sum_from:
  "nonneg_or_nan acc \<Longrightarrow> \<forall>x \<in> set xs. nonneg_or_nan x \<Longrightarrow> nonneg_or_nan (py_sum_from acc xs)"
  by (induction xs arbitrary: acc) (simp_all add: nonneg_or_nan_fadd)

lemma nonneg_or_nan_representable: "nonneg_or_nan x \<Longrightarrow> representable x"
  by (cases x) (simp_all add: nonneg_or_nan_def representable_def)

lemma cs_nonneg_start: "nonneg_or_nan x \<Longrightarrow> cs_nonneg (x, Fin 0)"
  by (cases x) (simp_all add: nonneg_or_nan_def cs_nonneg_def)

lemma nonneg_or_nan_py_sum:
  assumes "\<forall>x \<in> set xs. nonneg_or_nan x"
  shows "nonneg_or_nan (py_sum alg xs)"
proof (cases xs)
  case Nil
  then show ?thesis by (simp add: nonneg_or_nan_def)
next
  case (Cons x rest)
  with assms have x: "nonneg_or_nan x" and rest: "\<forall>y \<in> set rest. nonneg_or_nan y" by simp_all
  have start: "fadd (Fin 0) x = x"
    by (rule fadd_zero_left) (rule nonneg_or_nan_representable [OF x])
  show ?thesis
  proof (cases alg)
    case Plain
    then show ?thesis
      by (simp add: Cons start nonneg_or_nan_py_sum_from [OF x rest])
  next
    case Compensated
    then show ?thesis
      by (simp add: Cons start
          nonneg_or_nan_cs_to_double [OF cs_nonneg_sum_from [OF cs_nonneg_start [OF x] rest]])
  qed
qed


lemma py_sum_from_foldl: "py_sum_from acc xs = foldl fadd acc xs"
  by (induction xs arbitrary: acc) simp_all

lemma cs_sum_from_foldl: "cs_sum_from cs xs = foldl cs_add cs xs"
  by (induction xs arbitrary: cs) simp_all

lemma py_sum_single: "representable a \<Longrightarrow> py_sum alg [a] = a"
  by (cases alg) (simp_all add: fadd_zero_left cs_to_double_def)

lemma fst_cs_sum_from: "fst (cs_sum_from (hi, lo) xs) = py_sum_from hi xs"
proof (induction xs arbitrary: hi lo)
  case Nil
  show ?case by simp
next
  case (Cons x xs)
  from cs_add_form [of hi lo x] obtain d where "cs_add (hi, lo) x = (fadd hi x, fadd lo d)"
    by blast
  then show ?case by (simp add: Cons.IH)
qed

lemma fadd_not_nan:
  assumes "nonneg_or_nan a" "a \<noteq> NaN" "nonneg_or_nan b" "b \<noteq> NaN"
  shows "fadd a b \<noteq> NaN"
  using assms by (cases a; cases b) (simp_all add: nonneg_or_nan_def)

lemma py_sum_from_not_nan:
  "nonneg_or_nan acc \<Longrightarrow> acc \<noteq> NaN \<Longrightarrow> \<forall>x \<in> set xs. nonneg_or_nan x \<and> x \<noteq> NaN \<Longrightarrow>
   py_sum_from acc xs \<noteq> NaN"
  by (induction xs arbitrary: acc) (simp_all add: fadd_not_nan nonneg_or_nan_fadd)

lemma cs_to_double_not_nan:
  assumes "cs_nonneg cs" "fst cs \<noteq> NaN"
  shows "cs_to_double cs \<noteq> NaN"
proof -
  obtain hi lo where cs: "cs = (hi, lo)" by (cases cs)
  from assms show ?thesis
    by (cases hi; cases lo) (simp_all add: cs cs_nonneg_def cs_to_double_def is_finite_def)
qed

lemma py_sum_not_nan:
  assumes "\<forall>x \<in> set xs. nonneg_or_nan x \<and> x \<noteq> NaN"
  shows "py_sum alg xs \<noteq> NaN"
proof (cases xs)
  case Nil
  then show ?thesis by simp
next
  case (Cons x rest)
  with assms have x: "nonneg_or_nan x" "x \<noteq> NaN"
    and rest: "\<forall>y \<in> set rest. nonneg_or_nan y \<and> y \<noteq> NaN" by simp_all
  then have rest': "\<forall>y \<in> set rest. nonneg_or_nan y" by simp
  have start: "fadd (Fin 0) x = x"
    by (rule fadd_zero_left) (rule nonneg_or_nan_representable [OF x(1)])
  show ?thesis
  proof (cases alg)
    case Plain
    then show ?thesis
      by (simp add: Cons start py_sum_from_not_nan [OF x rest])
  next
    case Compensated
    have "fst (cs_sum_from (x, Fin 0) rest) \<noteq> NaN"
      by (simp only: fst_cs_sum_from py_sum_from_not_nan [OF x rest] not_False_eq_True)
    from cs_to_double_not_nan [OF cs_nonneg_sum_from [OF cs_nonneg_start [OF x(1)] rest'] this]
    show ?thesis by (simp add: Compensated Cons start)
  qed
qed

lemma py_sum_from_exact:
  "\<forall>k \<le> length vs. is_double (acc + sum_list (take k vs)) \<Longrightarrow>
   py_sum_from (Fin acc) (map Fin vs) = Fin (acc + sum_list vs)"
proof (induction vs arbitrary: acc)
  case Nil
  show ?case by simp
next
  case (Cons v vs)
  from Cons.prems [rule_format, of 1] have "is_double (acc + v)" by simp
  then have step: "rnd (acc + v) = Fin (acc + v)" by (rule rnd_exact)
  have "\<forall>k \<le> length vs. is_double (acc + v + sum_list (take k vs))"
  proof (intro allI impI)
    fix k assume "k \<le> length vs"
    with Cons.prems [rule_format, of "Suc k"] show "is_double (acc + v + sum_list (take k vs))"
      by (simp add: add.assoc)
  qed
  from Cons.IH [OF this] show ?case by (simp add: step add.assoc)
qed

lemma cs_add_exact:
  assumes "is_double acc" "is_double v" "is_double (acc + v)"
  shows "cs_add (Fin acc, Fin 0) (Fin v) = (Fin (acc + v), Fin 0)"
proof -
  have "is_double (- acc)" "is_double (- v)" using assms(1,2) by (simp_all add: is_double_neg)
  then show ?thesis
    using assms(3) by (simp add: cs_add_def Let_def fsub_def rnd_exact)
qed

lemma cs_sum_from_exact:
  "\<forall>k \<le> length vs. is_double (acc + sum_list (take k vs)) \<Longrightarrow> \<forall>v \<in> set vs. is_double v \<Longrightarrow>
   cs_sum_from (Fin acc, Fin 0) (map Fin vs) = (Fin (acc + sum_list vs), Fin 0)"
proof (induction vs arbitrary: acc)
  case Nil
  show ?case by simp
next
  case (Cons v vs)
  from Cons.prems(1) [rule_format, of 0] have a: "is_double acc" by simp
  from Cons.prems(1) [rule_format, of 1] have av: "is_double (acc + v)" by simp
  from Cons.prems(2) have v: "is_double v" and vs: "\<forall>v \<in> set vs. is_double v" by simp_all
  have "\<forall>k \<le> length vs. is_double (acc + v + sum_list (take k vs))"
  proof (intro allI impI)
    fix k assume "k \<le> length vs"
    with Cons.prems(1) [rule_format, of "Suc k"] show "is_double (acc + v + sum_list (take k vs))"
      by (simp add: add.assoc)
  qed
  from Cons.IH [OF this vs] show ?case by (simp add: cs_add_exact [OF a v av] add.assoc)
qed

lemma py_sum_exact:
  assumes "\<forall>k \<le> length vs. is_double (sum_list (take k vs))" "\<forall>v \<in> set vs. is_double v"
  shows "py_sum alg (map Fin vs) = Fin (sum_list vs)"
proof (cases vs)
  case Nil
  then show ?thesis by simp
next
  case (Cons v rest)
  with assms(2) have v: "is_double v" and rest: "\<forall>v \<in> set rest. is_double v" by simp_all
  have start: "fadd (Fin 0) (Fin v) = Fin v" using v by (simp add: rnd_exact)
  have sums: "\<forall>k \<le> length rest. is_double (v + sum_list (take k rest))"
  proof (intro allI impI)
    fix k assume "k \<le> length rest"
    with assms(1) [rule_format, of "Suc k"] Cons show "is_double (v + sum_list (take k rest))"
      by simp
  qed
  show ?thesis
  proof (cases alg)
    case Plain
    then show ?thesis
      by (simp only: Cons list.map py_sum.simps start py_sum_from_exact [OF sums] sum_list.Cons)
  next
    case Compensated
    then show ?thesis
      by (simp only: Cons list.map py_sum.simps start cs_sum_from_exact [OF sums rest] sum_list.Cons)
        (simp add: cs_to_double_def)
  qed
qed

section \<open>Properties of the polygon metrics evaluator\<close>

lemma polygon_metrics_Nil: "polygon_metrics alg [] = Inr (Fin 0, Fin 0, Fin 0)"
  by (simp add: polygon_metrics_def)

lemma polygon_metrics_Cons:
  "polygon_metrics alg (outer # holes) =
     Inr (fsub (ring_area outer) (py_sum alg (map ring_area holes)),
          py_sum alg (map ring_area holes),
          if fle (fsub (ring_area outer) (py_sum alg (map ring_area holes))) (Fin 0) then Fin 0
          else fmul (fdiv (py_sum alg (map ring_area holes))
                      (fsub (ring_area outer) (py_sum alg (map ring_area holes)))) (Fin 100))"
proof -
  have "truediv h p = Inr (fdiv h p)" if "\<not> fle p (Fin 0)" for h p
    using that by (cases "p = Fin 0") (auto simp: truediv_def)
  then show ?thesis
    by (simp add: polygon_metrics_def Let_def)
qed

lemma polygon_metrics_total: "\<exists>m. polygon_metrics alg rings = Inr m"
  by (cases rings) (simp_all add: polygon_metrics_Nil polygon_metrics_Cons)

lemma nonneg_or_nan_hole_area: "nonneg_or_nan (py_sum alg (map ring_area rs))"
  by (rule nonneg_or_nan_py_sum) (auto simp: nonneg_or_nan_ring_area)

lemma ring_area_square_10: "ring_area square_10 = Fin 100"
  by (simp add: ring_area_def square_10_def upt_4 shoelace_term_def fsub_def)

lemma ring_area_hole_2: "ring_area hole_2 = Fin 4"
  by (simp add: ring_area_def hole_2_def upt_4 shoelace_term_def fsub_def)

lemma polygon_metrics_example:
  "polygon_metrics alg [square_10, hole_2] =
     Inr (Fin 96, Fin 4, Fin (2345624805922133 / 562949953421312))"
proof -
  have "py_sum alg [Fin 4] = Fin 4"
    by (rule py_sum_single) (simp add: representable_def is_double_numeral)
  with rnd_one_24th rnd_percent show ?thesis
    by (simp add: polygon_metrics_Cons ring_area_square_10 ring_area_hole_2 fsub_def)
qed

lemma ring_area_hole_2_by_8: "ring_area hole_2_by_8 = Fin 16"
  by (simp add: ring_area_def hole_2_by_8_def upt_4 shoelace_term_def fsub_def)

lemma ring_area_unit_square: "ring_area unit_square = Fin 1"
  by (simp add: ring_area_def unit_square_def upt_4 shoelace_term_def fsub_def)

lemma ring_area_strip: "ring_area strip = Fin 9007199254740992"
  by (simp add: ring_area_def strip_def upt_4 shoelace_term_def fsub_def rnd_2_54)

lemma py_sum_strip_plain:
  "py_sum Plain [Fin 9007199254740992, Fin 1, Fin 1] = Fin 9007199254740992"
  by simp

lemma py_sum_strip_compensated:
  "py_sum Compensated [Fin 9007199254740992, Fin 1, Fin 1] = Fin 9007199254740994"
  by (simp add: cs_add_def cs_to_double_def fsub_def is_finite_def rnd_2_53_plus_2)

lemma representable_ring_area: "representable (ring_area coords)"
  by (rule nonneg_or_nan_representable) (rule nonneg_or_nan_ring_area)

text \<open>
  Claim C1. \<^verbatim>\<open>polygon_metrics\<close> returns \<open>(0.0, 0.0, 0.0)\<close> for the empty list of rings.
  For a list with exterior ring \<open>outer\<close> and hole rings \<open>holes\<close> it returns, without
  raising, the triple of the polygon area \<open>ring_area outer - hole_area\<close>, the hole area
  and the hole percentage; a polygon area that is \<open>\<le> 0\<close> is returned as it is. The hole
  area is the sum of \<open>ring_area\<close> over the holes: \<open>0.0\<close> for no hole, the area of the
  hole for one hole, the areas added from left to right by the interpreters that add
  plainly, and the compensated sum of the areas by the others (the running total of the
  same additions and the compensation, which the last two equations give); for both, it
  is the exact sum of the areas whenever every partial sum of the areas is a float.
\<close>

theorem polygon_metrics_result:
  "polygon_metrics alg [] = Inr (Fin 0, Fin 0, Fin 0) \<and>
   polygon_metrics alg (outer # holes) =
     Inr (fsub (ring_area outer) (py_sum alg (map ring_area holes)),
          py_sum alg (map ring_area holes),
          if fle (fsub (ring_area outer) (py_sum alg (map ring_area holes))) (Fin 0) then Fin 0
          else fmul (fdiv (py_sum alg (map ring_area holes))
                      (fsub (ring_area outer) (py_sum alg (map ring_area holes)))) (Fin 100)) \<and>
   py_sum alg [] = Fin 0 \<and>
   py_sum alg [ring_area hole] = ring_area hole \<and>
   py_sum Plain (map ring_area holes) = foldl fadd (Fin 0) (map ring_area holes) \<and>
   py_sum Compensated (map ring_area (hole # holes)) =
     cs_to_double (foldl cs_add (ring_area hole, Fin 0) (map ring_area holes)) \<and>
   cs_add (hi, lo) x =
     (fadd hi x,
      fadd lo (if fle (fabs x) (fabs hi) then fadd (fsub hi (fadd hi x)) x
               else fadd (fsub x (fadd hi x)) hi)) \<and>
   cs_to_double (hi, lo) = (if lo \<noteq> Fin 0 \<and> is_finite lo then fadd hi lo else hi) \<and>
   (map ring_area holes = map Fin areas \<and>
    (\<forall>k \<le> length areas. is_double (sum_list (take k areas))) \<longrightarrow>
    py_sum alg (map ring_area holes) = Fin (sum_list areas))"
proof -
  have empty: "py_sum alg [] = Fin 0" by simp
  have single: "py_sum alg [ring_area hole] = ring_area hole"
    by (rule py_sum_single) (rule representable_ring_area)
  have plain: "py_sum Plain (map ring_area holes) = foldl fadd (Fin 0) (map ring_area holes)"
    by (cases holes) (simp_all add: py_sum_from_foldl)
  have comp: "py_sum Compensated (map ring_area (hole # holes)) =
     cs_to_double (foldl cs_add (ring_area hole, Fin 0) (map ring_area holes))"
    by (simp add: cs_sum_from_foldl fadd_zero_left representable_ring_area)
  have add: "cs_add (hi, lo) x =
     (fadd hi x,
      fadd lo (if fle (fabs x) (fabs hi) then fadd (fsub hi (fadd hi x)) x
               else fadd (fsub x (fadd hi x)) hi))"
    by (simp add: cs_add_def Let_def)
  have fin: "cs_to_double (hi, lo) = (if lo \<noteq> Fin 0 \<and> is_finite lo then fadd hi lo else hi)"
    by (simp add: cs_to_double_def)
  have exact: "map ring_area holes = map Fin areas \<and>
    (\<forall>k \<le> length areas. is_double (sum_list (take k areas))) \<longrightarrow>
    py_sum alg (map ring_area holes) = Fin (sum_list areas)"
  proof (intro impI, elim conjE)
    assume eq: "map ring_area holes = map Fin areas"
      and sums: "\<forall>k \<le> length areas. is_double (sum_list (take k areas))"
    have "is_double v" if "v \<in> set areas" for v
    proof -
      from that have "Fin v \<in> set (map ring_area holes)" by (simp add: eq)
      then obtain r where "ring_area r = Fin v" by auto
      with representable_ring_area [of r] show ?thesis by (simp add: representable_def)
    qed
    then have "\<forall>v \<in> set areas. is_double v" by blast
    from py_sum_exact [OF sums this] show "py_sum alg (map ring_area holes) = Fin (sum_list areas)"
      by (simp only: eq)
  qed
  show ?thesis
    by (intro conjI; (fact polygon_metrics_Nil polygon_metrics_Cons empty single plain comp add fin exact))
qed


text \<open>
  Instances. The 10 by 10 square with the holes of 2 by 2 and of 2 by 8: the areas 4
  and 16 and their partial sums 0, 4 and 20 are floats, the hole area is 20.0 and the
  metrics are \<open>(80.0, 20.0, 25.0)\<close>, whatever the interpreter. The square of area 16 with
  three holes of the areas \<open>2\<^sup>5\<^sup>3\<close>, 1 and 1: added plainly the hole area is \<open>2\<^sup>5\<^sup>3\<close>, because
  \<open>2\<^sup>5\<^sup>3 + 1\<close> rounds to \<open>2\<^sup>5\<^sup>3\<close> twice, and the compensated sum is \<open>2\<^sup>5\<^sup>3 + 2\<close>; the polygon
  area is negative, is returned as it is, and the hole percentage is \<^verbatim>\<open>0.0\<close>.
\<close>

theorem polygon_metrics_result_witness:
  "map ring_area [hole_2, hole_2_by_8] = map Fin [4, 16] \<and>
   is_double (sum_list (take 0 [4, 16])) \<and>
   is_double (sum_list (take 1 [4, 16])) \<and>
   is_double (sum_list (take 2 [4, 16])) \<and>
   (\<forall>alg. py_sum alg (map ring_area [hole_2, hole_2_by_8]) = Fin 20) \<and>
   (\<forall>alg. polygon_metrics alg [square_10, hole_2, hole_2_by_8] = Inr (Fin 80, Fin 20, Fin 25)) \<and>
   map ring_area [strip, unit_square, unit_square] = [Fin 9007199254740992, Fin 1, Fin 1] \<and>
   polygon_metrics Plain [square, strip, unit_square, unit_square] =
     Inr (Fin (- 9007199254740976), Fin 9007199254740992, Fin 0) \<and>
   polygon_metrics Compensated [square, strip, unit_square, unit_square] =
     Inr (Fin (- 9007199254740978), Fin 9007199254740994, Fin 0)"
proof -
  have areas: "map ring_area [hole_2, hole_2_by_8] = map Fin [4, 16]"
    by (simp add: ring_area_hole_2 ring_area_hole_2_by_8)
  have doubles: "is_double (sum_list (take 0 [4, 16]))" "is_double (sum_list (take 1 [4, 16]))"
    "is_double (sum_list (take 2 [4, 16]))"
    by (simp_all add: is_double_numeral)
  have sums: "\<forall>k \<le> length [4, 16 :: rat]. is_double (sum_list (take k [4, 16]))"
  proof (intro allI impI)
    fix k :: nat assume "k \<le> length [4, 16 :: rat]"
    then have "k = 0 \<or> k = 1 \<or> k = 2" by auto
    with doubles show "is_double (sum_list (take k [4, 16]))" by auto
  qed
  have sum: "py_sum alg (map ring_area [hole_2, hole_2_by_8]) = Fin 20" for alg
  proof -
    have "map ring_area [hole_2, hole_2_by_8] = map Fin [4, 16] \<and>
      (\<forall>k \<le> length [4, 16 :: rat]. is_double (sum_list (take k [4, 16]))) \<longrightarrow>
      py_sum alg (map ring_area [hole_2, hole_2_by_8]) = Fin (sum_list [4, 16])"
      using polygon_metrics_result [where alg = alg and holes = "[hole_2, hole_2_by_8]"
          and areas = "[4, 16]"]
      by (rule conjunct2 [THEN conjunct2, THEN conjunct2, THEN conjunct2, THEN conjunct2,
            THEN conjunct2, THEN conjunct2, THEN conjunct2])
    with areas sums have "py_sum alg (map ring_area [hole_2, hole_2_by_8]) = Fin (sum_list [4, 16])"
      by blast
    then show ?thesis by simp
  qed
  have triple: "polygon_metrics alg (outer # holes) =
     Inr (fsub (ring_area outer) (py_sum alg (map ring_area holes)),
          py_sum alg (map ring_area holes),
          if fle (fsub (ring_area outer) (py_sum alg (map ring_area holes))) (Fin 0) then Fin 0
          else fmul (fdiv (py_sum alg (map ring_area holes))
                      (fsub (ring_area outer) (py_sum alg (map ring_area holes)))) (Fin 100))"
    for alg outer holes
    using polygon_metrics_result [where alg = alg and outer = outer and holes = holes]
    by (rule conjunct2 [THEN conjunct1])
  have first: "polygon_metrics alg [square_10, hole_2, hole_2_by_8] = Inr (Fin 80, Fin 20, Fin 25)"
    for alg
    unfolding triple sum ring_area_square_10
    using rnd_quarter by (simp add: fsub_def)
  have strips: "map ring_area [strip, unit_square, unit_square] =
      [Fin 9007199254740992, Fin 1, Fin 1]"
    by (simp add: ring_area_strip ring_area_unit_square)
  have plain: "polygon_metrics Plain [square, strip, unit_square, unit_square] =
     Inr (Fin (- 9007199254740976), Fin 9007199254740992, Fin 0)"
    unfolding triple strips py_sum_strip_plain ring_area_square
    by (simp add: fsub_def)
  have comp: "polygon_metrics Compensated [square, strip, unit_square, unit_square] =
     Inr (Fin (- 9007199254740978), Fin 9007199254740994, Fin 0)"
    unfolding triple strips py_sum_strip_compensated ring_area_square
    by (simp add: fsub_def)
  show ?thesis
    by (intro conjI allI; (fact areas doubles sum first strips plain comp))
qed

lemma hole_area_not_nan:
  assumes "\<forall>r \<in> set holes. is_finite (ring_area r)"
  shows "py_sum alg (map ring_area holes) \<noteq> NaN"
proof (rule py_sum_not_nan, rule ballI)
  fix x assume "x \<in> set (map ring_area holes)"
  then obtain r where r: "r \<in> set holes" "x = ring_area r" by auto
  with assms have "is_finite x" by simp
  then have "x \<noteq> NaN" by (auto simp: is_finite_def)
  with nonneg_or_nan_ring_area [of r] r(2) show "nonneg_or_nan x \<and> x \<noteq> NaN" by simp
qed

text \<open>
  Claim C2, as stated, fails: the hole percentage of the 10 by 10 square with a hole
  whose area has overflowed to NaN is NaN, which is not a percentage at all
  (\<^verbatim>\<open>0 <= nan\<close> is false as \<^verbatim>\<open>nan <= 0\<close> is), although the coordinates of the hole are
  finite floats.
\<close>

theorem hole_percentage_not_a_number:
  "is_double (2 ^ 600) \<and>
   (\<forall>alg. polygon_metrics alg [square_10, [(Fin (2 ^ 600), Fin (2 ^ 600))]] =
      Inr (NaN, NaN, NaN)) \<and>
   \<not> fle (Fin 0) NaN \<and> \<not> fle NaN (Fin 0) \<and> \<not> is_finite NaN"
proof -
  have sum: "py_sum alg [NaN] = NaN" for alg
    by (rule py_sum_single) (simp add: representable_def)
  have "polygon_metrics alg [square_10, [(Fin (2 ^ 600), Fin (2 ^ 600))]] =
      Inr (NaN, NaN, NaN)" for alg
    by (simp only: polygon_metrics_Cons list.map ring_area_square_10 ring_area_overflow_nan sum)
      (simp add: fsub_def)
  then show ?thesis
    by (simp only: is_double_two_600) (simp add: is_finite_def)
qed

text \<open>
  Claim C2, amended. In every result \<open>(polygon_area, hole_area, hole_pct)\<close> of
  \<^verbatim>\<open>polygon_metrics\<close> the hole percentage is \<^verbatim>\<open>0.0\<close> when \<^verbatim>\<open>polygon_area <= 0\<close>, and
  \<^verbatim>\<open>(hole_area / polygon_area) * 100.0\<close> otherwise. It is never below zero and never
  infinite. It is NaN exactly when the polygon area is NaN, and otherwise it is a finite
  number that is not negative; the polygon area is not NaN when the area of every ring
  is finite. (Between two floats \<open>hole_area < outer_area\<close> the difference is at least one
  unit in the last place of \<open>hole_area\<close>, so the quotient is at most \<open>2\<^sup>5\<^sup>3\<close>.)
\<close>

theorem hole_percentage:
  assumes "polygon_metrics alg rings = Inr (polygon_area, hole_area, hole_pct)"
  shows "hole_pct = (if fle polygon_area (Fin 0) then Fin 0
                     else fmul (fdiv hole_area polygon_area) (Fin 100)) \<and>
         \<not> flt hole_pct (Fin 0) \<and> hole_pct \<noteq> PInf \<and> hole_pct \<noteq> NInf \<and>
         (hole_pct = NaN \<longleftrightarrow> polygon_area = NaN) \<and>
         (polygon_area \<noteq> NaN \<longrightarrow> fle (Fin 0) hole_pct \<and> is_finite hole_pct) \<and>
         ((\<forall>r \<in> set rings. is_finite (ring_area r)) \<longrightarrow> polygon_area \<noteq> NaN)"
proof (cases rings)
  case Nil
  with assms show ?thesis by (auto simp: polygon_metrics_Nil is_finite_def)
next
  case (Cons outer holes)
  define h where "h = py_sum alg (map ring_area holes)"
  define p where "p = fsub (ring_area outer) h"
  from assms Cons have vals: "polygon_area = p" "hole_area = h"
    "hole_pct = (if fle p (Fin 0) then Fin 0 else fmul (fdiv h p) (Fin 100))"
    by (auto simp: polygon_metrics_Cons p_def h_def)
  have ok: "percent_ok polygon_area hole_pct"
    unfolding vals(1,3) unfolding p_def h_def
    by (rule percent_ok_areas) (rule nonneg_or_nan_ring_area nonneg_or_nan_hole_area)+
  have finite: "polygon_area \<noteq> NaN" if "\<forall>r \<in> set rings. is_finite (ring_area r)"
  proof -
    from that Cons have o: "is_finite (ring_area outer)"
      and hs: "\<forall>r \<in> set holes. is_finite (ring_area r)" by simp_all
    from fsub_not_nan [OF o nonneg_or_nan_hole_area hole_area_not_nan [OF hs]]
    show ?thesis by (simp add: vals(1) p_def h_def)
  qed
  from ok have "(hole_pct = NaN \<longleftrightarrow> polygon_area = NaN) \<and> \<not> flt hole_pct (Fin 0) \<and>
      hole_pct \<noteq> PInf \<and> hole_pct \<noteq> NInf"
    by (rule iffD1 [OF percent_ok_iff])
  moreover have "polygon_area \<noteq> NaN \<longrightarrow> fle (Fin 0) hole_pct \<and> is_finite hole_pct"
    using percent_ok_number [OF ok] by blast
  moreover have "hole_pct = (if fle polygon_area (Fin 0) then Fin 0
                     else fmul (fdiv hole_area polygon_area) (Fin 100))"
    by (simp only: vals)
  ultimately show ?thesis using finite by blast
qed

text \<open>
  The example of the specification: the 10 by 10 square with the 2 by 2 hole has the
  metrics \<open>(96.0, 4.0, 4.166666666666666)\<close>, both ring areas being finite; with the two
  rings exchanged the polygon area is \<open>-96.0\<close> and the hole percentage is forced to
  \<^verbatim>\<open>0.0\<close>.
\<close>

theorem hole_percentage_witness:
  "\<forall>alg.
   polygon_metrics alg [square_10, hole_2] =
     Inr (Fin 96, Fin 4, Fin (2345624805922133 / 562949953421312)) \<and>
   is_finite (ring_area square_10) \<and> is_finite (ring_area hole_2) \<and>
   Fin 96 \<noteq> NaN \<and> \<not> fle (Fin 96) (Fin 0) \<and>
   Fin (2345624805922133 / 562949953421312) = fmul (fdiv (Fin 4) (Fin 96)) (Fin 100) \<and>
   \<not> flt (Fin (2345624805922133 / 562949953421312)) (Fin 0) \<and>
   fle (Fin 0) (Fin (2345624805922133 / 562949953421312)) \<and>
   is_finite (Fin (2345624805922133 / 562949953421312)) \<and>
   polygon_metrics alg [hole_2, square_10] = Inr (Fin (- 96), Fin 100, Fin 0) \<and>
   fle (Fin (- 96)) (Fin 0)"
  (is "\<forall>alg. ?P alg")
proof
  fix alg
  have sum: "py_sum alg [Fin 100] = Fin 100"
    by (rule py_sum_single) (simp add: representable_def is_double_numeral)
  have swap: "polygon_metrics alg [hole_2, square_10] = Inr (Fin (- 96), Fin 100, Fin 0)"
    by (simp add: polygon_metrics_Cons ring_area_square_10 ring_area_hole_2 sum fsub_def
        del: py_sum.simps)
  have pct: "fmul (fdiv (Fin 4) (Fin 96)) (Fin 100) = Fin (2345624805922133 / 562949953421312)"
    using rnd_one_24th rnd_percent by simp
  have fin: "is_finite (ring_area square_10)" "is_finite (ring_area hole_2)"
    by (simp_all add: ring_area_square_10 ring_area_hole_2 is_finite_def)
  from hole_percentage [OF polygon_metrics_example [of alg]] hole_percentage [OF swap] fin
  show "?P alg" by (simp only: polygon_metrics_example swap pct) (simp add: is_finite_def)
qed

lemma polygon_metrics_single:
  "polygon_metrics alg [outer] =
     Inr (ring_area outer, Fin 0, if ring_area outer = NaN then NaN else Fin 0)"
proof -
  have sum: "py_sum alg [] = Fin 0"
    by simp
  from nonneg_or_nan_ring_area [of outer] show ?thesis
  proof (cases rule: nonneg_or_nan_cases)
    case (fin v)
    then have sub: "fsub (Fin v) (Fin 0) = Fin v"
      by (simp add: fsub_def rnd_exact)
    have zero: "fsub (Fin 0) (Fin 0) = Fin 0" by (simp add: fsub_def)
    show ?thesis
      using fin(2) by (simp add: polygon_metrics_def sum sub zero fin(1) truediv_def Let_def)
  next
    case inf
    then show ?thesis
      by (simp add: polygon_metrics_def sum fsub_def truediv_def Let_def)
  next
    case nan
    then show ?thesis
      by (simp add: polygon_metrics_def sum fsub_def truediv_def Let_def)
  qed
qed

text \<open>
  Claim C6, as stated, fails: when the area of the exterior ring is NaN, the hole
  percentage is \<^verbatim>\<open>0 / nan * 100.0\<close>, which is NaN and not \<^verbatim>\<open>0.0\<close>.
\<close>

theorem single_ring_metrics_overflow:
  "is_double (2 ^ 600) \<and>
   (\<forall>alg. polygon_metrics alg [[(Fin (2 ^ 600), Fin (2 ^ 600))]] = Inr (NaN, Fin 0, NaN))"
  by (simp only: is_double_two_600 polygon_metrics_single ring_area_overflow_nan) simp

text \<open>
  Claim C6, amended. For a list of the single ring \<open>outer\<close>, \<^verbatim>\<open>polygon_metrics\<close>
  returns the area of \<open>outer\<close> as the polygon area and \<^verbatim>\<open>0.0\<close> as the hole area; the hole
  percentage is \<^verbatim>\<open>0.0\<close> whenever that area is not NaN (also when it is 0 or infinite), and
  NaN when it is NaN.
\<close>

theorem single_ring_metrics:
  "polygon_metrics alg [outer] =
     Inr (ring_area outer, Fin 0, if ring_area outer = NaN then NaN else Fin 0)"
  by (rule polygon_metrics_single)

section \<open>The evaluators on parsed values agree with those on float rings\<close>

lemma py_vertex_embed:
  "i < length r \<Longrightarrow>
   py_vertex (embed_ring r) i = Inr (PFloat (fst (r ! i)), PFloat (snd (r ! i)))"
  by (simp add: py_vertex_def embed_ring_def embed_vertex_def py_unpack2_def)

lemma py_mul_float: "py_mul (PFloat a) (PFloat b) = Inr (PFloat (fmul a b))"
  by (simp add: py_mul_def float_op_def)

lemma py_sub_float: "py_sub (PFloat a) (PFloat b) = Inr (PFloat (fsub a b))"
  by (simp add: py_sub_def float_op_def)

lemma float_iadd_float: "float_iadd a (PFloat b) = Inr (fadd a b)"
  by (simp add: float_iadd_def float_op_def)

lemma py_shoelace_term_embed:
  assumes "i < length r"
  shows "py_shoelace_term (embed_ring r) (length r) i = Inr (PFloat (shoelace_term r i))"
proof -
  from assms have next_lt: "Suc i mod length r < length r"
    by (intro mod_less_divisor) auto
  show ?thesis
    by (simp add: py_shoelace_term_def shoelace_term_def py_vertex_embed [OF assms]
        py_vertex_embed [OF next_lt] py_mul_float py_sub_float split: prod.splits)
qed

lemma py_ring_area_loop_embed:
  "\<forall>i \<in> set idxs. i < length r \<Longrightarrow>
   py_ring_area_loop (embed_ring r) (length r) idxs area = Inr (ring_area_loop r idxs area)"
  by (induction idxs arbitrary: area) (simp_all add: py_shoelace_term_embed float_iadd_float)

lemma truediv_two: "truediv a (Fin 2) = Inr (fdiv a (Fin 2))"
  by (simp add: truediv_def)

lemma py_ring_area_embed: "py_ring_area (embed_ring r) = Inr (ring_area r)"
proof (cases "r = []")
  case True
  then show ?thesis by (simp add: py_ring_area_def ring_area_def embed_ring_def)
next
  case False
  have "py_ring_area_loop (embed_ring r) (length r) [0..<length r] (Fin 0) =
        Inr (ring_area_loop r [0..<length r] (Fin 0))"
    by (rule py_ring_area_loop_embed) simp
  moreover have "py_len (embed_ring r) = Inr (length r)" "py_truthy (embed_ring r)"
    using False by (simp_all add: embed_ring_def)
  ultimately show ?thesis
    using False by (simp add: py_ring_area_def ring_area_def truediv_two)
qed

lemma py_ring_areas_embed: "py_ring_areas (map embed_ring rs) = Inr (map ring_area rs)"
  by (induction rs) (simp_all add: py_ring_area_embed)

lemma py_polygon_metrics_embed: "py_polygon_metrics alg (embed_rings rs) = polygon_metrics alg rs"
proof (cases rs)
  case Nil
  then show ?thesis by (simp add: py_polygon_metrics_def polygon_metrics_def embed_rings_def)
next
  case (Cons r rest)
  then show ?thesis
    by (simp add: py_polygon_metrics_def polygon_metrics_def embed_rings_def
        py_ring_area_embed py_ring_areas_embed Let_def)
qed

text \<open>
  A remark on integer coordinates, which the data model of the specification does not
  have but a parsed document can: their products and differences are exact, and a term
  that is too large for a float raises \<^verbatim>\<open>OverflowError\<close> when it is added to the area.
\<close>

lemma int_to_float_overflow: "int_to_float (2 ^ 1200) = Inl OverflowError"
proof -
  have "(2::rat) powi 1024 \<le> 2 powi 1200" by (rule two_powi_le) simp
  then have "rnd (2 powi 1200) = PInf" by (rule rnd_overflow)
  moreover have "rat_of_int (2 ^ 1200) = 2 powi 1200"
    by (simp add: power_int_def)
  ultimately show ?thesis by (simp only: int_to_float_def double.case)
qed

lemma py_ring_area_int_overflow:
  "py_ring_area (PList [int_vertex (2 ^ 600, 0), int_vertex (0, 2 ^ 600)]) = Inl OverflowError"
proof -
  have "(2::int) ^ 600 * 2 ^ 600 = 2 ^ 1200" by (simp flip: power_add)
  then show ?thesis
    using int_to_float_overflow
    by (simp add: py_ring_area_def int_vertex_def upt_2 py_shoelace_term_def py_vertex_def
        py_unpack2_def py_mul_def py_sub_def float_iadd_def float_op_def)
qed

section \<open>Properties of the traversal\<close>

lemma feature_step_skipped:
  assumes "lacks_polygon_geometry feat"
  shows "feature_step alg index feat = ([], index, None)"
proof -
  from assms obtain kvs where feat: "feat = PDict kvs"
    by (cases feat) (auto simp: lacks_polygon_geometry_def)
  show ?thesis
  proof (cases "map_of kvs ''geometry''")
    case None
    then show ?thesis by (simp add: feat feature_step_def)
  next
    case (Some geom)
    with assms feat obtain g where geom: "geom = PDict g"
      by (cases geom) (auto simp: lacks_polygon_geometry_def)
    from assms feat Some geom show ?thesis
      by (cases "map_of g ''type''") (auto simp: lacks_polygon_geometry_def feature_step_def)
  qed
qed

lemma features_loop_skip:
  assumes "\<And>i. feature_step alg i feat = ([], i, None)"
  shows "features_loop alg index (pre @ feat # post) = features_loop alg index (pre @ post)"
proof (induction pre arbitrary: index)
  case Nil
  show ?case by (simp add: assms)
next
  case (Cons f pre)
  show ?case
    by (simp add: Cons.IH split: prod.splits option.splits)
qed

lemma multipolygon_loop_index:
  "multipolygon_loop alg index polys = (rows, index', err) \<Longrightarrow>
   map fst rows = [Suc index..<Suc index + length rows] \<and>
   (err = None \<longrightarrow> index' = index + length rows \<and> length rows = length polys)"
proof (induction polys arbitrary: index rows index' err)
  case Nil
  then show ?case by auto
next
  case (Cons p ps)
  show ?case
  proof (cases "py_polygon_metrics alg p")
    case (Inl e)
    with Cons.prems show ?thesis by auto
  next
    case (Inr m)
    obtain pa ha hp where m: "m = (pa, ha, hp)" by (cases m) auto
    obtain rows1 i1 e1 where rec: "multipolygon_loop alg (Suc index) ps = (rows1, i1, e1)"
      by (cases "multipolygon_loop alg (Suc index) ps") auto
    from Cons.prems Inr m rec have rows: "rows = (Suc index, pa, ha, hp) # rows1"
      and i: "index' = i1" and e: "err = e1" by auto
    from Cons.IH [OF rec] have ih: "map fst rows1 = [Suc (Suc index)..<Suc (Suc index) + length rows1]"
      "e1 = None \<longrightarrow> i1 = Suc index + length rows1 \<and> length rows1 = length ps" by auto
    show ?thesis using ih rows i e by (auto simp: upt_rec [of "Suc index"])
  qed
qed

lemma feature_step_index:
  "feature_step alg index feat = (rows, index', err) \<Longrightarrow>
   map fst rows = [Suc index..<Suc index + length rows] \<and>
   (err = None \<longrightarrow> index' = index + length rows)"
  by (auto simp: feature_step_def split: sum.splits if_splits prod.splits
      dest: multipolygon_loop_index)

lemma features_loop_index:
  "features_loop alg index feats = (rows, err) \<Longrightarrow>
   map fst rows = [Suc index..<Suc index + length rows]"
proof (induction feats arbitrary: index rows err)
  case Nil
  then show ?case by auto
next
  case (Cons f fs)
  obtain rows1 i1 e1 where st: "feature_step alg index f = (rows1, i1, e1)"
    by (cases "feature_step alg index f") auto
  note s = feature_step_index [OF st]
  show ?case
  proof (cases e1)
    case (Some e)
    with Cons.prems st s show ?thesis by auto
  next
    case None
    obtain rows2 e2 where rec: "features_loop alg i1 fs = (rows2, e2)"
      by (cases "features_loop alg i1 fs") auto
    from Cons.IH [OF rec] have ih: "map fst rows2 = [Suc i1..<Suc i1 + length rows2]" .
    from None s have i1: "i1 = index + length rows1" by simp
    from Cons.prems st None rec have rows: "rows = rows1 @ rows2" by auto
    have "[Suc index..<Suc index + length rows1 + length rows2] =
          [Suc index..<Suc index + length rows1] @ [Suc index + length rows1..<Suc index + length rows1 + length rows2]"
      by (metis le_add1 upt_add_eq_append)
    with s ih i1 rows show ?thesis by (simp del: upt_Suc add: add.assoc)
  qed
qed

lemma features_loop_append:
  assumes "snd (features_loop alg index fs1) = None"
  shows "features_loop alg index (fs1 @ fs2) =
         (fst (features_loop alg index fs1) @
            fst (features_loop alg (index + length (fst (features_loop alg index fs1))) fs2),
          snd (features_loop alg (index + length (fst (features_loop alg index fs1))) fs2))"
  using assms
proof (induction fs1 arbitrary: index)
  case Nil
  then show ?case by simp
next
  case (Cons f fs1)
  obtain rows1 i1 e1 where st: "feature_step alg index f = (rows1, i1, e1)"
    by (cases "feature_step alg index f") auto
  obtain rows2 e2 where rec: "features_loop alg i1 fs1 = (rows2, e2)"
    by (cases "features_loop alg i1 fs1") auto
  from Cons.prems st rec have e1: "e1 = None" and e2: "e2 = None"
    by (auto split: option.splits)
  from feature_step_index [OF st] e1 have i1: "i1 = index + length rows1" by simp
  from rec e2 have "snd (features_loop alg i1 fs1) = None" by simp
  from Cons.IH [OF this] rec
  have ih: "features_loop alg i1 (fs1 @ fs2) =
     (rows2 @ fst (features_loop alg (i1 + length rows2) fs2),
      snd (features_loop alg (i1 + length rows2) fs2))" by simp
  show ?case
    using rec [unfolded i1] ih [unfolded i1]
    by (simp add: st e1 i1 add.assoc)
qed

lemma process_geojson_collection:
  "process_geojson alg (Inr (feature_collection feats)) = features_loop alg 0 feats"
  by (simp add: process_geojson_def feature_collection_def)

lemma process_geojson_cases:
  "(\<exists>e. process_geojson alg parsed = ([], Some e)) \<or>
   (\<exists>feats. process_geojson alg parsed = features_loop alg 0 feats)"
  unfolding process_geojson_def
  by (auto simp del: features_loop.simps split: sum.splits)

lemma process_geojson_index:
  "map fst (fst (process_geojson alg parsed)) = [1..<Suc (length (fst (process_geojson alg parsed)))]"
proof -
  have loop: "map fst (fst (features_loop alg 0 feats)) = [1..<Suc (length (fst (features_loop alg 0 feats)))]"
    for feats
    using features_loop_index [of alg 0 feats] by (cases "features_loop alg 0 feats") simp
  from process_geojson_cases [of alg parsed] show ?thesis
  proof
    assume "\<exists>e. process_geojson alg parsed = ([], Some e)"
    then show ?thesis by auto
  next
    assume "\<exists>feats. process_geojson alg parsed = features_loop alg 0 feats"
    then obtain feats where "process_geojson alg parsed = features_loop alg 0 feats" by blast
    then show ?thesis by (simp only: loop)
  qed
qed

lemma py_get_not_dict: "\<not> is_dict v \<Longrightarrow> py_get v k d = Inl AttributeError"
  by (cases v) (simp_all add: is_dict_def)

lemma list_all_image:
  assumes "list_all P xs" "\<And>x. P x \<Longrightarrow> \<exists>y. x = f y"
  shows "\<exists>ys. xs = map f ys"
  using assms(1)
proof (induction xs)
  case Nil
  show ?case by simp
next
  case (Cons x xs)
  then obtain ys where "xs = map f ys" by auto
  moreover from Cons.prems assms(2) obtain y where "x = f y" by auto
  ultimately have "x # xs = map f (y # ys)" by simp
  then show ?case by (rule exI)
qed

lemma is_position_embed: "is_position v \<Longrightarrow> \<exists>p. v = embed_vertex p"
  by (erule is_position.elims) (auto simp: embed_vertex_def)

lemma is_ring_embed:
  assumes "is_ring v"
  shows "\<exists>r. v = embed_ring r"
proof -
  from assms obtain ps where v: "v = PList ps" and ps: "list_all is_position ps"
    by (cases v) (auto simp: is_ring_def)
  from list_all_image [OF ps is_position_embed] show ?thesis
    by (auto simp: v embed_ring_def)
qed

lemma is_ring_list_embed:
  assumes "is_ring_list v"
  shows "\<exists>rs. v = embed_rings rs"
proof -
  from assms obtain xs where v: "v = PList xs" and xs: "list_all is_ring xs"
    by (cases v) (auto simp: is_ring_list_def)
  from list_all_image [OF xs is_ring_embed] show ?thesis
    by (auto simp: v embed_rings_def)
qed

lemma py_polygon_metrics_ring_list:
  assumes "is_ring_list c"
  shows "\<exists>m. py_polygon_metrics alg c = Inr m"
proof -
  from is_ring_list_embed [OF assms] obtain rs where "c = embed_rings rs" by blast
  then show ?thesis
    using polygon_metrics_total [of alg rs] by (simp add: py_polygon_metrics_embed)
qed

lemma multipolygon_loop_rows:
  "multipolygon_loop alg index polys = (rows, index', err) \<Longrightarrow>
   map (\<lambda>r. Inr (snd r)) rows = take (length rows) (map (py_polygon_metrics alg) polys)"
proof (induction polys arbitrary: index rows index' err)
  case Nil
  then show ?case by auto
next
  case (Cons p ps)
  show ?case
  proof (cases "py_polygon_metrics alg p")
    case (Inl e)
    with Cons.prems show ?thesis by auto
  next
    case (Inr m)
    obtain pa ha hp where m: "m = (pa, ha, hp)" by (cases m) auto
    obtain rows1 i1 e1 where rec: "multipolygon_loop alg (Suc index) ps = (rows1, i1, e1)"
      by (cases "multipolygon_loop alg (Suc index) ps") auto
    from Cons.prems Inr m rec have rows: "rows = (Suc index, pa, ha, hp) # rows1" by auto
    from Cons.IH [OF rec] show ?thesis by (simp add: rows Inr m)
  qed
qed

lemma multipolygon_loop_total:
  "list_all is_ring_list polys \<Longrightarrow>
   \<exists>rows. multipolygon_loop alg index polys = (rows, index + length polys, None)"
proof (induction polys arbitrary: index)
  case Nil
  show ?case by simp
next
  case (Cons p ps)
  from Cons.prems have p: "is_ring_list p" and ps: "list_all is_ring_list ps" by simp_all
  from py_polygon_metrics_ring_list [OF p] obtain m where m: "py_polygon_metrics alg p = Inr m"
    by blast
  from Cons.IH [OF ps, of "Suc index"] obtain rows
    where "multipolygon_loop alg (Suc index) ps = (rows, Suc index + length ps, None)" by blast
  then show ?case by (cases m) (simp add: m)
qed

lemma feature_step_rows:
  assumes "feature_step alg index feat = (rows, index', err)"
  shows "map (\<lambda>r. Inr (snd r)) rows =
           take (length rows) (map (py_polygon_metrics alg) (feature_polygons feat)) \<and>
         (err = None \<longrightarrow> length rows = polygon_instances feat)"
proof (cases "rows = [] \<and> err \<noteq> None")
  case True
  then show ?thesis by auto
next
  case False
  with assms obtain kvs where feat: "feat = PDict kvs"
    by (cases feat) (auto simp: feature_step_def)
  define geom where "geom = (case map_of kvs ''geometry'' of None \<Rightarrow> PDict [] | Some v \<Rightarrow> v)"
  from assms feat False obtain g where g: "geom = PDict g"
    by (cases geom) (auto simp: feature_step_def geom_def)
  show ?thesis
  proof (cases "map_of kvs ''geometry''")
    case None
    with assms feat show ?thesis
      by (auto simp: feature_step_def feature_polygons_def polygon_instances_def)
  next
    case (Some v)
    with g have v: "v = PDict g" by (simp add: geom_def)
    from assms feat Some v show ?thesis
      by (auto simp: feature_step_def feature_polygons_def polygon_instances_def
          split: option.splits sum.splits if_splits prod.splits
          dest: multipolygon_loop_index multipolygon_loop_rows)
  qed
qed

lemma feature_step_total:
  assumes "well_formed_feature feat"
  shows "\<exists>rows index'. feature_step alg index feat = (rows, index', None)"
proof -
  from assms obtain kvs where feat: "feat = PDict kvs"
    by (cases feat) (auto simp: well_formed_feature_def)
  show ?thesis
  proof (cases "map_of kvs ''geometry''")
    case None
    then show ?thesis by (simp add: feat feature_step_def)
  next
    case (Some v)
    with assms feat obtain g where v: "v = PDict g"
      by (cases v) (auto simp: well_formed_feature_def)
    have empty: "py_polygon_metrics alg (PList []) = Inr (Fin 0, Fin 0, Fin 0)"
      by (simp add: py_polygon_metrics_def)
    show ?thesis
    proof (cases "map_of g ''type'' = Some (PStr ''Polygon'')")
      case True
      show ?thesis
      proof (cases "map_of g ''coordinates''")
        case None
        with True Some v show ?thesis by (simp add: feat feature_step_def empty)
      next
        case c: (Some c)
        with assms feat Some v True have "is_ring_list c"
          by (simp add: well_formed_feature_def)
        from py_polygon_metrics_ring_list [OF this] obtain m
          where "py_polygon_metrics alg c = Inr m" by blast
        with True Some v c show ?thesis
          by (cases m) (simp add: feat feature_step_def)
      qed
    next
      case False
      show ?thesis
      proof (cases "map_of g ''type'' = Some (PStr ''MultiPolygon'')")
        case multi: True
        show ?thesis
        proof (cases "map_of g ''coordinates''")
          case None
          with multi Some v show ?thesis by (simp add: feat feature_step_def)
        next
          case c: (Some c)
          with assms feat Some v multi have "is_polygon_list c"
            by (simp add: well_formed_feature_def)
          then obtain ps where ps: "c = PList ps" "list_all is_ring_list ps"
            by (cases c) (auto simp: is_polygon_list_def)
          from multipolygon_loop_total [OF ps(2), of alg index] obtain rows
            where "multipolygon_loop alg index ps = (rows, index + length ps, None)" by blast
          with multi Some v c ps(1) show ?thesis
            by (simp add: feat feature_step_def)
        qed
      next
        case other: False
        with False Some v show ?thesis
          by (cases "map_of g ''type''") (auto simp: feat feature_step_def)
      qed
    qed
  qed
qed

lemma take_prefix_length:
  assumes "map f rows = take (length rows) xs"
  shows "length rows \<le> length xs"
proof -
  have "length rows = length (take (length rows) xs)"
    using arg_cong [OF assms, of length] by simp
  then show ?thesis by simp
qed

lemma features_loop_rows:
  "features_loop alg index feats = (rows, err) \<Longrightarrow>
   map (\<lambda>r. Inr (snd r)) rows =
     take (length rows) (map (py_polygon_metrics alg) (concat (map feature_polygons feats))) \<and>
   (err = None \<longrightarrow> length rows = sum_list (map polygon_instances feats))"
proof (induction feats arbitrary: index rows err)
  case Nil
  then show ?case by auto
next
  case (Cons f fs)
  obtain rows1 i1 e1 where st: "feature_step alg index f = (rows1, i1, e1)"
    by (cases "feature_step alg index f") auto
  note s = feature_step_rows [OF st]
  from s have le: "length rows1 \<le> length (feature_polygons f)"
    using take_prefix_length [of "\<lambda>r. Inr (snd r)" rows1
        "map (py_polygon_metrics alg) (feature_polygons f)"] by simp
  show ?case
  proof (cases e1)
    case (Some e)
    with Cons.prems st have "rows = rows1" "err = Some e" by auto
    with s le show ?thesis by simp
  next
    case None
    obtain rows2 e2 where rec: "features_loop alg i1 fs = (rows2, e2)"
      by (cases "features_loop alg i1 fs") auto
    note ih = Cons.IH [OF rec]
    from None s have all: "length rows1 = length (feature_polygons f)"
      by (simp add: polygon_instances_def)
    from Cons.prems st None rec have rows: "rows = rows1 @ rows2" and err: "err = e2" by auto
    from s all have first: "map (\<lambda>r. Inr (snd r)) rows1 =
        map (py_polygon_metrics alg) (feature_polygons f)" by simp
    show ?thesis
      using ih first all by (simp add: rows err polygon_instances_def)
  qed
qed

lemma features_loop_total:
  "list_all well_formed_feature feats \<Longrightarrow> snd (features_loop alg index feats) = None"
proof (induction feats arbitrary: index)
  case Nil
  show ?case by simp
next
  case (Cons f fs)
  from Cons.prems have f: "well_formed_feature f" and fs: "list_all well_formed_feature fs"
    by simp_all
  from feature_step_total [OF f, of alg index] obtain rows i1
    where st: "feature_step alg index f = (rows, i1, None)" by blast
  from Cons.IH [OF fs, of i1] show ?case
    by (cases "features_loop alg i1 fs") (simp add: st)
qed

lemma process_geojson_features:
  "(\<exists>e. process_geojson alg (Inr data) = ([], Some e)) \<or>
   process_geojson alg (Inr data) = features_loop alg 0 (document_features data)"
proof (cases data)
  case (PDict kvs)
  show ?thesis
  proof (cases "map_of kvs ''type'' = Some (PStr ''FeatureCollection'')")
    case True
    then show ?thesis
      by (cases "map_of kvs ''features''")
        (auto simp: PDict process_geojson_def document_features_def
          simp del: features_loop.simps split: sum.splits)
  next
    case False
    then show ?thesis
      by (cases "map_of kvs ''type''")
        (auto simp: PDict process_geojson_def document_features_def simp del: features_loop.simps)
  qed
qed (simp_all add: process_geojson_def)

lemma process_geojson_total:
  assumes "well_formed_document data"
  shows "snd (process_geojson alg (Inr data)) = None"
proof -
  from assms obtain kvs where data: "data = PDict kvs"
    by (cases data) (auto simp: well_formed_document_def)
  show ?thesis
  proof (cases "map_of kvs ''type'' = Some (PStr ''FeatureCollection'')")
    case True
    show ?thesis
    proof (cases "map_of kvs ''features''")
      case None
      with True show ?thesis by (simp add: data process_geojson_def)
    next
      case (Some fv)
      with assms data True obtain feats where fv: "fv = PList feats"
        and wf: "list_all well_formed_feature feats"
        by (cases fv) (auto simp: well_formed_document_def)
      from features_loop_total [OF wf, of alg 0] True Some fv show ?thesis
        by (simp add: data process_geojson_def del: features_loop.simps)
    qed
  next
    case False
    with assms data have wf: "list_all well_formed_feature [data]"
      by (simp add: well_formed_document_def)
    from False have "process_geojson alg (Inr data) = features_loop alg 0 [data]"
      by (cases "map_of kvs ''type''") (auto simp: data process_geojson_def)
    with features_loop_total [OF wf, of alg 0] show ?thesis by simp
  qed
qed


lemma polygon_metrics_square: "polygon_metrics alg [square] = Inr (Fin 16, Fin 0, Fin 0)"
  by (simp add: polygon_metrics_single ring_area_square)

lemma py_polygon_metrics_examples:
  "py_polygon_metrics alg (embed_rings [square]) = Inr (Fin 16, Fin 0, Fin 0)"
  "py_polygon_metrics alg (embed_rings [square_10, hole_2]) =
     Inr (Fin 96, Fin 4, Fin (2345624805922133 / 562949953421312))"
  by (simp_all only: py_polygon_metrics_embed polygon_metrics_square polygon_metrics_example)

lemma process_geojson_example:
  "process_geojson alg (Inr (feature_collection example_features)) =
     ([(1, Fin 16, Fin 0, Fin 0), (2, Fin 16, Fin 0, Fin 0),
       (3, Fin 96, Fin 4, Fin (2345624805922133 / 562949953421312))], None)"
  "process_geojson alg (Inr (feature_collection example_features_with_point)) =
     ([(1, Fin 16, Fin 0, Fin 0), (2, Fin 16, Fin 0, Fin 0),
       (3, Fin 96, Fin 4, Fin (2345624805922133 / 562949953421312))], None)"
  "process_geojson alg (Inr (polygon_feature (embed_rings [square]))) =
     ([(1, Fin 16, Fin 0, Fin 0)], None)"
  by (simp_all add: process_geojson_def feature_collection_def example_features_def
      example_features_with_point_def feature_step_def polygon_feature_def
      multipolygon_feature_def point_feature_def py_polygon_metrics_examples)

lemma py_polygon_metrics_altitude:
  "py_polygon_metrics alg (PList [altitude_square]) = Inl ValueError"
  by (simp add: py_polygon_metrics_def altitude_square_def py_ring_area_def upt_4
      py_shoelace_term_def py_vertex_def py_unpack2_def)

text \<open>
  Claim C4, as stated, fails: not every parsed document gets a row for each of its
  polygons. A \<^verbatim>\<open>Polygon\<close> whose positions carry an altitude, \<^verbatim>\<open>[x, y, z]\<close>, makes
  \<^verbatim>\<open>x1, y1 = coords[i]\<close> raise \<^verbatim>\<open>ValueError\<close>: the document that is this one feature
  yields no row, and in a collection of three polygons, of which it is the second, the
  traversal ends after the first row.
\<close>

theorem traversal_ends_at_altitude:
  "polygon_instances (polygon_feature (PList [altitude_square])) = 1 \<and>
   (\<forall>alg. process_geojson alg (Inr (polygon_feature (PList [altitude_square]))) =
      ([], Some ValueError)) \<and>
   sum_list (map polygon_instances
     [polygon_feature (embed_rings [square]), polygon_feature (PList [altitude_square]),
      polygon_feature (embed_rings [square])]) = 3 \<and>
   (\<forall>alg. process_geojson alg (Inr (feature_collection
     [polygon_feature (embed_rings [square]), polygon_feature (PList [altitude_square]),
      polygon_feature (embed_rings [square])])) =
      ([(1, Fin 16, Fin 0, Fin 0)], Some ValueError))"
  by (simp add: process_geojson_def feature_collection_def feature_step_def polygon_feature_def
      polygon_instances_def feature_polygons_def py_polygon_metrics_altitude
      py_polygon_metrics_examples)

text \<open>
  Claim C4, amended. The rows a traversal of a parsed document yields carry the indices
  1, 2, 3, ... in the order they are yielded, and they hold, in document order, the
  metrics of the first polygon instances of the document: as many as there are rows,
  also when an exception ends the traversal early. A traversal that ends without an
  exception has yielded exactly one row for each \<^verbatim>\<open>Polygon\<close> geometry and one for each
  constituent polygon of a \<^verbatim>\<open>MultiPolygon\<close> geometry, and the traversal of a document
  that follows the data model does end without an exception. The polygon instances of a
  \<^verbatim>\<open>Polygon\<close> feature are its \<^verbatim>\<open>coordinates\<close>, those of a \<^verbatim>\<open>MultiPolygon\<close> feature the
  items of its \<^verbatim>\<open>coordinates\<close>; a feature whose geometry has another type has none,
  yields no row and leaves the index counter as it was.
\<close>

theorem traversal_rows:
  assumes "process_geojson alg (Inr data) = (rows, err)"
  shows "map fst rows = [1..<Suc (length rows)] \<and>
         map (\<lambda>r. Inr (snd r)) rows =
           take (length rows) (map (py_polygon_metrics alg) (document_polygons data)) \<and>
         (err = None \<longrightarrow>
            length rows = sum_list (map polygon_instances (document_features data)) \<and>
            map (\<lambda>r. Inr (snd r)) rows =
              map (py_polygon_metrics alg) (document_polygons data)) \<and>
         (well_formed_document data \<longrightarrow> err = None) \<and>
         feature_polygons (polygon_feature coords) = [coords] \<and>
         feature_polygons (multipolygon_feature (PList polys)) = polys \<and>
         (lacks_polygon_geometry feat \<longrightarrow>
            feature_polygons feat = [] \<and> feature_step alg index feat = ([], index, None))"
proof -
  have index: "map fst rows = [1..<Suc (length rows)]"
    using process_geojson_index [of alg "Inr data"] by (simp add: assms)
  have total: "err = None" if "well_formed_document data"
    using process_geojson_total [OF that, of alg] by (simp add: assms)
  have count: "length (document_polygons data) =
      sum_list (map polygon_instances (document_features data))"
  proof -
    have "polygon_instances = (\<lambda>feat. length (feature_polygons feat))"
      by (rule ext) (simp add: polygon_instances_def)
    then show ?thesis by (simp add: document_polygons_def length_concat comp_def)
  qed
  have content: "map (\<lambda>r. Inr (snd r)) rows =
      take (length rows) (map (py_polygon_metrics alg) (document_polygons data)) \<and>
    (err = None \<longrightarrow> length rows = sum_list (map polygon_instances (document_features data)))"
    using process_geojson_features [of alg data]
  proof
    assume "\<exists>e. process_geojson alg (Inr data) = ([], Some e)"
    with assms show ?thesis by auto
  next
    assume "process_geojson alg (Inr data) = features_loop alg 0 (document_features data)"
    with assms have "features_loop alg 0 (document_features data) = (rows, err)" by simp
    from features_loop_rows [OF this] show ?thesis by (simp add: document_polygons_def)
  qed
  then have rows: "map (\<lambda>r. Inr (snd r)) rows =
      take (length rows) (map (py_polygon_metrics alg) (document_polygons data))"
    and len: "err = None \<longrightarrow> length rows = sum_list (map polygon_instances (document_features data))"
    by simp_all
  have whole: "map (\<lambda>r. Inr (snd r)) rows = map (py_polygon_metrics alg) (document_polygons data)"
    if "err = None"
  proof -
    from len that count have "length rows = length (document_polygons data)" by simp
    with rows show ?thesis by simp
  qed
  have polygon: "feature_polygons (polygon_feature coords) = [coords]"
    by (simp add: feature_polygons_def polygon_feature_def)
  have multi: "feature_polygons (multipolygon_feature (PList polys)) = polys"
    by (simp add: feature_polygons_def multipolygon_feature_def)
  have skipped: "feature_polygons feat = [] \<and> feature_step alg index feat = ([], index, None)"
    if "lacks_polygon_geometry feat"
  proof -
    note st = feature_step_skipped [OF that, of alg index]
    from feature_step_rows [OF st] have "polygon_instances feat = 0" by simp
    with st show ?thesis by (simp add: polygon_instances_def)
  qed
  from index rows len whole total polygon multi skipped show ?thesis by blast
qed

text \<open>
  The example of the specification: a \<^verbatim>\<open>Polygon\<close> feature followed by a \<^verbatim>\<open>MultiPolygon\<close>
  feature of two polygons yields three rows with the indices 1, 2, 3, and so does the
  same document with a \<^verbatim>\<open>Point\<close> feature between the two, which follows the data
  model: the rows are the metrics of its three polygons in document order. The
  traversal that the polygon with altitudes ends has yielded the metrics of the first
  of the three polygons.
\<close>

theorem traversal_rows_witness:
  "\<forall>alg.
   process_geojson alg (Inr (feature_collection example_features)) =
     ([(1, Fin 16, Fin 0, Fin 0), (2, Fin 16, Fin 0, Fin 0),
       (3, Fin 96, Fin 4, Fin (2345624805922133 / 562949953421312))], None) \<and>
   process_geojson alg (Inr (feature_collection example_features_with_point)) =
     ([(1, Fin 16, Fin 0, Fin 0), (2, Fin 16, Fin 0, Fin 0),
       (3, Fin 96, Fin 4, Fin (2345624805922133 / 562949953421312))], None) \<and>
   well_formed_document (feature_collection example_features_with_point) \<and>
   document_features (feature_collection example_features_with_point) =
     example_features_with_point \<and>
   document_polygons (feature_collection example_features_with_point) =
     [embed_rings [square], embed_rings [square], embed_rings [square_10, hole_2]] \<and>
   map (py_polygon_metrics alg)
     [embed_rings [square], embed_rings [square], embed_rings [square_10, hole_2]] =
     [Inr (Fin 16, Fin 0, Fin 0), Inr (Fin 16, Fin 0, Fin 0),
      Inr (Fin 96, Fin 4, Fin (2345624805922133 / 562949953421312))] \<and>
   sum_list (map polygon_instances example_features_with_point) = 3 \<and>
   lacks_polygon_geometry (point_feature (PList [PFloat (Fin 1), PFloat (Fin 2)])) \<and>
   feature_polygons (point_feature (PList [PFloat (Fin 1), PFloat (Fin 2)])) = [] \<and>
   feature_step alg 7 (point_feature (PList [PFloat (Fin 1), PFloat (Fin 2)])) = ([], 7, None) \<and>
   process_geojson alg (Inr (feature_collection
     [polygon_feature (embed_rings [square_10, hole_2]), polygon_feature (PList [altitude_square]),
      polygon_feature (embed_rings [square])])) =
     ([(1, Fin 96, Fin 4, Fin (2345624805922133 / 562949953421312))], Some ValueError) \<and>
   take 1 (map (py_polygon_metrics alg) (document_polygons (feature_collection
     [polygon_feature (embed_rings [square_10, hole_2]), polygon_feature (PList [altitude_square]),
      polygon_feature (embed_rings [square])]))) =
     [Inr (Fin 96, Fin 4, Fin (2345624805922133 / 562949953421312))]"
  (is "\<forall>alg. ?P alg")
proof
  fix alg
  let ?point = "point_feature (PList [PFloat (Fin 1), PFloat (Fin 2)])"
  let ?doc = "feature_collection example_features_with_point"
  let ?cut = "feature_collection
     [polygon_feature (embed_rings [square_10, hole_2]), polygon_feature (PList [altitude_square]),
      polygon_feature (embed_rings [square])]"
  have lacks: "lacks_polygon_geometry ?point"
    by (simp add: lacks_polygon_geometry_def point_feature_def)
  have wf: "well_formed_document ?doc"
    by (simp add: well_formed_document_def feature_collection_def example_features_with_point_def
        well_formed_feature_def polygon_feature_def multipolygon_feature_def point_feature_def
        is_polygon_list_def is_ring_list_def is_ring_def embed_rings_def embed_ring_def
        embed_vertex_def square_def square_10_def hole_2_def)
  have feats: "document_features ?doc = example_features_with_point"
    by (simp add: document_features_def feature_collection_def)
  have polys: "document_polygons ?doc =
     [embed_rings [square], embed_rings [square], embed_rings [square_10, hole_2]]"
    by (simp add: document_polygons_def feats)
      (simp add: example_features_with_point_def feature_polygons_def polygon_feature_def
        multipolygon_feature_def point_feature_def)
  have cut: "process_geojson alg (Inr ?cut) =
     ([(1, Fin 96, Fin 4, Fin (2345624805922133 / 562949953421312))], Some ValueError)"
    by (simp add: process_geojson_def feature_collection_def feature_step_def polygon_feature_def
        py_polygon_metrics_altitude py_polygon_metrics_examples)
  note full = process_geojson_example(2) [of alg]
  from traversal_rows [OF full, where feat = ?point and index = 7]
    traversal_rows [OF cut] lacks wf
  show "?P alg"
    by (simp only: process_geojson_example feats polys cut) simp
qed

text \<open>
  Claim C10. A feature that has no \<^verbatim>\<open>geometry\<close> key, or whose geometry object has no
  \<^verbatim>\<open>type\<close> key or carries a type that is not recognised, is skipped: the loop body
  yields no row, leaves the index counter unchanged and raises nothing, and the
  traversal of the features around it is what it would be without it.
\<close>

theorem skipped_feature:
  assumes "lacks_polygon_geometry feat"
  shows "feature_step alg index feat = ([], index, None) \<and>
         features_loop alg index (pre @ feat # post) = features_loop alg index (pre @ post) \<and>
         process_geojson alg (Inr (PDict [(''type'', PStr ''FeatureCollection''),
                                      (''features'', PList (pre @ feat # post))])) =
         process_geojson alg (Inr (PDict [(''type'', PStr ''FeatureCollection''),
                                      (''features'', PList (pre @ post))]))"
  using features_loop_skip [of alg feat, OF feature_step_skipped [OF assms]]
    feature_step_skipped [OF assms]
  by (simp add: process_geojson_def)

text \<open>
  Instances: a feature without \<^verbatim>\<open>geometry\<close>, a geometry without \<^verbatim>\<open>type\<close> and a
  \<^verbatim>\<open>Point\<close> geometry are skipped at index 4, which stays 4; a \<^verbatim>\<open>Point\<close> feature between
  two polygon features leaves them the indices 1 and 2.
\<close>

theorem skipped_feature_witness:
  "\<forall>alg.
   lacks_polygon_geometry (PDict [(''type'', PStr ''Feature'')]) \<and>
   lacks_polygon_geometry (PDict [(''geometry'', PDict [(''coordinates'', PList [])])]) \<and>
   lacks_polygon_geometry (PDict [(''geometry'', PDict [(''type'', PStr ''Point'')])]) \<and>
   feature_step alg 4 (PDict [(''type'', PStr ''Feature'')]) = ([], 4, None) \<and>
   feature_step alg 4 (PDict [(''geometry'', PDict [(''coordinates'', PList [])])]) = ([], 4, None) \<and>
   feature_step alg 4 (PDict [(''geometry'', PDict [(''type'', PStr ''Point'')])]) = ([], 4, None) \<and>
   features_loop alg 0 ([polygon_feature (PList [])] @
       PDict [(''geometry'', PDict [(''type'', PStr ''Point'')])] # [polygon_feature (PList [])]) =
     ([(1, Fin 0, Fin 0, Fin 0), (2, Fin 0, Fin 0, Fin 0)], None)"
  (is "\<forall>alg. ?P alg")
proof
  fix alg
  have a: "lacks_polygon_geometry (PDict [(''type'', PStr ''Feature'')])"
    and b: "lacks_polygon_geometry (PDict [(''geometry'', PDict [(''coordinates'', PList [])])])"
    and c: "lacks_polygon_geometry (PDict [(''geometry'', PDict [(''type'', PStr ''Point'')])])"
    by (simp_all add: lacks_polygon_geometry_def)
  have two: "features_loop alg 0 ([polygon_feature (PList [])] @ [polygon_feature (PList [])]) =
     ([(1, Fin 0, Fin 0, Fin 0), (2, Fin 0, Fin 0, Fin 0)], None)"
    by (simp add: feature_step_def polygon_feature_def py_polygon_metrics_def)
  from skipped_feature [OF a, of alg 4] skipped_feature [OF b, of alg 4]
    skipped_feature [OF c, of alg 4]
    skipped_feature [OF c, of alg 0 "[polygon_feature (PList [])]" "[polygon_feature (PList [])]"]
    a b c two
  show "?P alg" by simp
qed

text \<open>
  Claim C7, as stated, fails: a document with a feature that has no \<^verbatim>\<open>geometry\<close> key,
  or with a geometry that has no \<^verbatim>\<open>type\<close> key, is processed without any exception and
  yields no row.
\<close>

theorem missing_keys_do_not_raise:
  "\<forall>alg.
   process_geojson alg (Inr (PDict [(''type'', PStr ''Feature'')])) = ([], None) \<and>
   process_geojson alg (Inr (PDict [(''type'', PStr ''Feature''),
       (''geometry'', PDict [(''coordinates'', PList [])])])) = ([], None) \<and>
   process_geojson alg (Inr (feature_collection [PDict [(''type'', PStr ''Feature'')]])) = ([], None)"
proof
  fix alg
  show "process_geojson alg (Inr (PDict [(''type'', PStr ''Feature'')])) = ([], None) \<and>
   process_geojson alg (Inr (PDict [(''type'', PStr ''Feature''),
       (''geometry'', PDict [(''coordinates'', PList [])])])) = ([], None) \<and>
   process_geojson alg (Inr (feature_collection [PDict [(''type'', PStr ''Feature'')]])) = ([], None)"
    by (simp add: process_geojson_def feature_collection_def feature_step_def)
qed

text \<open>
  Claim C7, amended. An exception of \<^verbatim>\<open>open\<close> or \<^verbatim>\<open>json.load\<close> (invalid syntax) ends the
  processing of the file with that exception and no row. So does, with an
  \<^verbatim>\<open>AttributeError\<close>, a document that is not an object, a feature that is not an object
  and a \<^verbatim>\<open>geometry\<close> value that is not an object. A missing \<^verbatim>\<open>geometry\<close> or
  \<^verbatim>\<open>type\<close> key raises nothing: the feature is skipped and the traversal goes on.
\<close>

theorem malformed_document:
  "process_geojson alg (Inl e) = ([], Some e) \<and>
   (\<not> is_dict data \<longrightarrow> process_geojson alg (Inr data) = ([], Some AttributeError)) \<and>
   (\<not> is_dict feat \<longrightarrow> features_loop alg index (feat # rest) = ([], Some AttributeError)) \<and>
   (map_of kvs ''geometry'' = Some geom \<and> \<not> is_dict geom \<longrightarrow>
      features_loop alg index (PDict kvs # rest) = ([], Some AttributeError)) \<and>
   (lacks_polygon_geometry skipped \<longrightarrow>
      features_loop alg index (skipped # rest) = features_loop alg index rest)"
proof -
  have "features_loop alg index (skipped # rest) = features_loop alg index rest"
    if "lacks_polygon_geometry skipped"
    by (simp add: feature_step_skipped [OF that])
  moreover have "features_loop alg index (feat # rest) = ([], Some AttributeError)"
    if "\<not> is_dict feat"
    by (simp add: feature_step_def py_get_not_dict [OF that])
  moreover have "features_loop alg index (PDict kvs # rest) = ([], Some AttributeError)"
    if "map_of kvs ''geometry'' = Some geom" "\<not> is_dict geom"
    using that by (simp add: feature_step_def py_get_not_dict)
  ultimately show ?thesis
    by (simp add: process_geojson_def py_get_not_dict)
qed

text \<open>
  Instances: a parse error; a document that is a list; a feature that is a string; a
  \<^verbatim>\<open>geometry\<close> that is \<^verbatim>\<open>null\<close>; and a feature without \<^verbatim>\<open>geometry\<close>, after which the
  next feature still yields its row.
\<close>

theorem malformed_document_witness:
  "\<forall>alg.
   process_geojson alg (Inl JSONDecodeError) = ([], Some JSONDecodeError) \<and>
   \<not> is_dict (PList []) \<and>
   process_geojson alg (Inr (PList [])) = ([], Some AttributeError) \<and>
   \<not> is_dict (PStr ''x'') \<and>
   features_loop alg 0 [PStr ''x'', polygon_feature (PList [])] = ([], Some AttributeError) \<and>
   map_of [(''type'', PStr ''Feature''), (''geometry'', PNone)] ''geometry'' = Some PNone \<and>
   \<not> is_dict PNone \<and>
   features_loop alg 0 [PDict [(''type'', PStr ''Feature''), (''geometry'', PNone)],
                    polygon_feature (PList [])] = ([], Some AttributeError) \<and>
   lacks_polygon_geometry (PDict [(''type'', PStr ''Feature'')]) \<and>
   features_loop alg 0 [PDict [(''type'', PStr ''Feature'')], polygon_feature (PList [])] =
     ([(1, Fin 0, Fin 0, Fin 0)], None)"
  (is "\<forall>alg. ?P alg")
proof
  fix alg
  have lacks: "lacks_polygon_geometry (PDict [(''type'', PStr ''Feature'')])"
    by (simp add: lacks_polygon_geometry_def)
  have one: "features_loop alg 0 [polygon_feature (PList [])] = ([(1, Fin 0, Fin 0, Fin 0)], None)"
    by (simp add: feature_step_def polygon_feature_def py_polygon_metrics_def)
  have nd: "\<not> is_dict (PList [])" "\<not> is_dict (PStr ''x'')" "\<not> is_dict PNone"
    by (simp_all add: is_dict_def)
  from malformed_document [of alg JSONDecodeError "PList []" "PStr ''x''" 0 "[polygon_feature (PList [])]"
      "[(''type'', PStr ''Feature''), (''geometry'', PNone)]" PNone "PDict [(''type'', PStr ''Feature'')]"]
    lacks one nd
  show "?P alg" by simp
qed

end
